theory Spec2Isabelle
  imports Main "HOL-Library.Char_ord" "HOL-Library.List_Lexorder"
begin

section \<open>JavaScript values used by the database layer\<close>

text \<open>
  The embedding follows \<^verbatim>\<open>src/database/index.ts\<close> (class \<^verbatim>\<open>DB\<close>). Strings are byte
  lists; keys and block numbers of the program are ASCII, where the order of LevelDB
  on keys (bytewise) and the order of JavaScript on strings (by code unit) are both the
  lexicographic order of \<^typ>\<open>string\<close> used here. A value that may be \<^verbatim>\<open>undefined\<close>
  is a \<^typ>\<open>string option\<close>.
\<close>

datatype error =
    EncodingError
  | TypeError
  | LevelNotFound
  | InsufficientParameters
  | NoItemsFound
  | NumberNotModelled

text \<open>
  \<^item> \<open>EncodingError\<close>: \<^verbatim>\<open>Error("Database cannot encode number greater than 10 digits")\<close>;
  \<^item> \<open>TypeError\<close>: reading \<^verbatim>\<open>.length\<close> of \<^verbatim>\<open>undefined\<close>;
  \<^item> \<open>LevelNotFound\<close>: the error with code \<^verbatim>\<open>LEVEL_NOT_FOUND\<close>;
  \<^item> \<open>InsufficientParameters\<close>: the last \<^verbatim>\<open>throw\<close> of \<^verbatim>\<open>getOne\<close>;
  \<^item> \<open>NoItemsFound\<close>: \<^verbatim>\<open>Error("Couldn't find any items for the given DB query")\<close>;
  \<^item> \<open>NumberNotModelled\<close>: not an error of the program; \<^verbatim>\<open>Number(s).toString()\<close> was
    applied to a string outside the fragment of \<open>js_Number\<close> below.
\<close>

text \<open>Interpolation \<^verbatim>\<open>${x}\<close> in a template literal.\<close>

definition tmpl :: "string option \<Rightarrow> string" where
  "tmpl x = (case x of None \<Rightarrow> ''undefined'' | Some s \<Rightarrow> s)"

text \<open>\<^verbatim>\<open>x || ''\<close>: \<^verbatim>\<open>undefined\<close> and the empty string are falsy.\<close>

definition or_empty :: "string option \<Rightarrow> string" where
  "or_empty x = (case x of None \<Rightarrow> [] | Some s \<Rightarrow> s)"

definition truthy :: "string option \<Rightarrow> bool" where
  "truthy x = (case x of None \<Rightarrow> False | Some s \<Rightarrow> s \<noteq> [])"

text \<open>\<^verbatim>\<open>s.split(sep)\<close> for a one-character separator: never the empty array.\<close>

fun split_on :: "char \<Rightarrow> string \<Rightarrow> string list" where
  "split_on sep [] = [[]]"
| "split_on sep (c # cs) =
     (if c = sep then [] # split_on sep cs
      else (case split_on sep cs of
              [] \<Rightarrow> [[c]]
            | seg # segs \<Rightarrow> (c # seg) # segs))"

text \<open>Array destructuring: a position past the end is \<^verbatim>\<open>undefined\<close>.\<close>

definition nth_opt :: "'a list \<Rightarrow> nat \<Rightarrow> 'a option" where
  "nth_opt xs i = (if i < length xs then Some (xs ! i) else None)"

text \<open>\<^verbatim>\<open>s.padStart(n, c)\<close> for a one-character pad string.\<close>

definition padStart :: "nat \<Rightarrow> char \<Rightarrow> string \<Rightarrow> string" where
  "padStart n c s = replicate (n - length s) c @ s"

subsection \<open>\<^verbatim>\<open>Number(s).toString()\<close> on digit strings\<close>

definition is_digit :: "char \<Rightarrow> bool" where
  "is_digit c \<longleftrightarrow> CHR ''0'' \<le> c \<and> c \<le> CHR ''9''"

definition digit_val :: "char \<Rightarrow> nat" where
  "digit_val c = of_char c - 48"

definition nat_of_digits :: "string \<Rightarrow> nat" where
  "nat_of_digits s = foldl (\<lambda>n c. 10 * n + digit_val c) 0 s"

definition MAX_SAFE_INTEGER :: nat where
  "MAX_SAFE_INTEGER = 9007199254740991"

text \<open>
  \<^verbatim>\<open>Number(s)\<close> on a string of ASCII digits only (the empty string gives 0) whose value
  is at most \<^verbatim>\<open>Number.MAX_SAFE_INTEGER\<close>: the double is that integer, exactly. Every
  other string (sign, fraction, exponent, hexadecimal, white space, rounding of larger
  values, \<^verbatim>\<open>NaN\<close>) is outside the fragment: \<open>None\<close>.
\<close>

definition js_Number :: "string \<Rightarrow> nat option" where
  "js_Number s =
     (if list_all is_digit s \<and> nat_of_digits s \<le> MAX_SAFE_INTEGER
      then Some (nat_of_digits s) else None)"

text \<open>\<^verbatim>\<open>n.toString()\<close> of such an integer: its decimal numeral.\<close>

fun js_toString :: "nat \<Rightarrow> string" where
  "js_toString n =
     (if n < 10 then [''0123456789'' ! n]
      else js_toString (n div 10) @ [''0123456789'' ! (n mod 10)])"

declare js_toString.simps [simp del]

section \<open>Key codec\<close>

record datum =
  chainId :: "string option"
  address :: "string option"
  tokenId :: "string option"
  blockNumber :: "string option"

definition datumToKey :: "datum \<Rightarrow> string" where
  "datumToKey d =
     or_empty (chainId d) @ ''/'' @ or_empty (address d) @ ''/'' @
     or_empty (tokenId d) @ ''/'' @ or_empty (blockNumber d)"

definition keyToDatum :: "string \<Rightarrow> datum" where
  "keyToDatum key =
     (let segs = split_on CHR ''/'' key in
      \<lparr>chainId = nth_opt segs 0, address = nth_opt segs 1,
       tokenId = nth_opt segs 2, blockNumber = nth_opt segs 3\<rparr>)"

definition MAX_LENGTH :: nat where
  "MAX_LENGTH = 10"

definition encodeNumber :: "string option \<Rightarrow> error + string" where
  "encodeNumber num =
     (case num of
        None \<Rightarrow> Inl TypeError
      | Some s \<Rightarrow>
          if length s > MAX_LENGTH then Inl EncodingError
          else Inr (padStart MAX_LENGTH CHR ''0'' s))"

definition decodeNumber :: "string \<Rightarrow> string option" where
  "decodeNumber num = map_option js_toString (js_Number num)"

definition datumToChangeKey :: "datum \<Rightarrow> error + string" where
  "datumToChangeKey d =
     (case encodeNumber (blockNumber d) of
        Inl e \<Rightarrow> Inl e
      | Inr b \<Rightarrow>
          Inr (b @ ''/'' @ tmpl (chainId d) @ ''/'' @ tmpl (address d) @ ''/'' @
               tmpl (tokenId d)))"

text \<open>A canonical decimal numeral: digits only, not empty, no leading zero but in \<open>0\<close>.\<close>

definition canonical_decimal :: "string \<Rightarrow> bool" where
  "canonical_decimal s \<longleftrightarrow>
     s \<noteq> [] \<and> list_all is_digit s \<and> (hd s = CHR ''0'' \<longrightarrow> s = ''0'')"

section \<open>The ordered store\<close>

text \<open>
  A \<^verbatim>\<open>Level\<close> database is a finite map from keys to values that iterates in ascending
  key order. It is modelled by the list of its entries in that order, one per key.
  \<^verbatim>\<open>put\<close> overwrites the value of a key that is present; \<^verbatim>\<open>del\<close> of a key that is absent
  is no error and changes nothing; \<^verbatim>\<open>iterator({gte, lte})\<close> yields the entries whose key
  lies in the closed range, and none when the range is empty.
\<close>

type_synonym 'v store = "(string \<times> 'v) list"

fun store_put :: "'v store \<Rightarrow> string \<Rightarrow> 'v \<Rightarrow> 'v store" where
  "store_put [] k v = [(k, v)]"
| "store_put ((k', v') # s) k v =
     (if k < k' then (k, v) # (k', v') # s
      else if k = k' then (k, v) # s
      else (k', v') # store_put s k v)"

definition store_del :: "'v store \<Rightarrow> string \<Rightarrow> 'v store" where
  "store_del s k = filter (\<lambda>e. fst e \<noteq> k) s"

definition store_iterator :: "'v store \<Rightarrow> string \<Rightarrow> string \<Rightarrow> 'v store" where
  "store_iterator s gte lte = filter (\<lambda>e. gte \<le> fst e \<and> fst e \<le> lte) s"

definition sorted_store :: "'v store \<Rightarrow> bool" where
  "sorted_store s \<longleftrightarrow> sorted_wrt (<) (map fst s)"

section \<open>The database\<close>

text \<open>
  The two stores of \<^verbatim>\<open>DB\<close>, and the store writes issued so far, in the order of issue
  (each \<^verbatim>\<open>await\<close> completes before the next statement runs).
\<close>

datatype store_write = LevelPut string | LevelDel string | ChangePut string | ChangeDel string

record 'v db =
  level :: "'v store"
  changeIndex :: "string store"
  writes :: "store_write list"

type_synonym 'a result = "error + 'a"

type_synonym 'v ReturnValue = "datum \<times> 'v"

definition level_put :: "'v db \<Rightarrow> string \<Rightarrow> 'v \<Rightarrow> 'v db" where
  "level_put d k v = d\<lparr>level := store_put (level d) k v, writes := writes d @ [LevelPut k]\<rparr>"

definition level_del :: "'v db \<Rightarrow> string \<Rightarrow> 'v db" where
  "level_del d k = d\<lparr>level := store_del (level d) k, writes := writes d @ [LevelDel k]\<rparr>"

definition changeIndex_put :: "'v db \<Rightarrow> string \<Rightarrow> string \<Rightarrow> 'v db" where
  "changeIndex_put d k v =
     d\<lparr>changeIndex := store_put (changeIndex d) k v, writes := writes d @ [ChangePut k]\<rparr>"

definition changeIndex_del :: "'v db \<Rightarrow> string \<Rightarrow> 'v db" where
  "changeIndex_del d k =
     d\<lparr>changeIndex := store_del (changeIndex d) k, writes := writes d @ [ChangeDel k]\<rparr>"

definition empty_db :: "'v db" where
  "empty_db = \<lparr>level = [], changeIndex = [], writes = []\<rparr>"

text \<open>Both stores of a database are stores: ascending keys, one entry per key.\<close>

definition db_inv :: "'v db \<Rightarrow> bool" where
  "db_inv d \<longleftrightarrow> sorted_store (level d) \<and> sorted_store (changeIndex d)"

subsection \<open>Comparisons and defaults of JavaScript\<close>

text \<open>\<^verbatim>\<open>x || d\<close> on a string that may be \<^verbatim>\<open>undefined\<close>.\<close>

definition js_or :: "string option \<Rightarrow> string \<Rightarrow> string" where
  "js_or x d = (case x of None \<Rightarrow> d | Some s \<Rightarrow> if s = [] then d else s)"

text \<open>
  \<^verbatim>\<open>a <= b\<close> (and \<^verbatim>\<open>b >= a\<close>) where \<open>b\<close> is a string: two strings compare as strings,
  by code unit; \<^verbatim>\<open>undefined\<close> becomes \<^verbatim>\<open>NaN\<close> and the comparison is false.
\<close>

definition js_le :: "string option \<Rightarrow> string \<Rightarrow> bool" where
  "js_le a b = (case a of None \<Rightarrow> False | Some s \<Rightarrow> s \<le> b)"

text \<open>\<^verbatim>\<open>`${id.chainId}/${id.address}/${id.tokenId}`\<close>\<close>

definition idPrefix :: "datum \<Rightarrow> string" where
  "idPrefix d = tmpl (chainId d) @ ''/'' @ tmpl (address d) @ ''/'' @ tmpl (tokenId d)"

subsection \<open>\<^verbatim>\<open>getMany\<close>\<close>

definition getMany_filter :: "datum \<Rightarrow> string \<times> string" where
  "getMany_filter d =
     (if truthy (address d)
      then (tmpl (chainId d) @ ''/'' @ tmpl (address d) @ ''/'',
            tmpl (chainId d) @ ''/'' @ tmpl (address d) @ ''/~'')
      else (tmpl (chainId d) @ ''/'', tmpl (chainId d) @ ''/~''))"

text \<open>
  The \<^verbatim>\<open>for await\<close> loop and the statement after it: the values yielded from the
  current \<open>lastId\<close> and \<open>result\<close> on.
\<close>

fun getMany_loop ::
  "string \<Rightarrow> datum \<Rightarrow> 'v ReturnValue \<Rightarrow> 'v store \<Rightarrow> 'v ReturnValue list" where
  "getMany_loop tillBlockNumber lastId result [] =
     (if js_le (blockNumber (fst result)) tillBlockNumber then [result] else [])"
| "getMany_loop tillBlockNumber lastId result ((key, val) # rest) =
     (let ident = keyToDatum key in
      if idPrefix lastId \<noteq> idPrefix ident then
        (if js_le (blockNumber (fst result)) tillBlockNumber then [result] else []) @
        getMany_loop tillBlockNumber ident (ident, val) rest
      else if js_le (blockNumber ident) tillBlockNumber then
        getMany_loop tillBlockNumber ident (ident, val) rest
      else getMany_loop tillBlockNumber ident result rest)"

definition getMany :: "'v db \<Rightarrow> datum \<Rightarrow> 'v ReturnValue list result" where
  "getMany d q =
     (let tillBlockNumber = js_or (blockNumber q) (js_toString MAX_SAFE_INTEGER) in
      case store_iterator (level d) (fst (getMany_filter q)) (snd (getMany_filter q)) of
        [] \<Rightarrow> Inl NoItemsFound
      | (key, val) # rest \<Rightarrow>
          Inr (getMany_loop tillBlockNumber (keyToDatum key) (keyToDatum key, val) rest))"

subsection \<open>\<^verbatim>\<open>getOne\<close>\<close>

text \<open>An iterator with \<^verbatim>\<open>reverse: true, limit: 1\<close>: the last entry of the range, if any.\<close>

definition last_entry :: "'v store \<Rightarrow> (string \<times> 'v) option" where
  "last_entry s = (case rev s of [] \<Rightarrow> None | e # _ \<Rightarrow> Some e)"

definition getOne :: "'v db \<Rightarrow> datum \<Rightarrow> 'v ReturnValue result" where
  "getOne d q =
     (if truthy (chainId q) \<and> truthy (address q) \<and> truthy (tokenId q) \<and>
         truthy (blockNumber q) then
        (case last_entry (store_iterator (level d)
                (idPrefix q @ ''/'') (idPrefix q @ ''/'' @ tmpl (blockNumber q))) of
           Some (key, val) \<Rightarrow> Inr (keyToDatum key, val)
         | None \<Rightarrow> Inl LevelNotFound)
      else if truthy (chainId q) \<and> truthy (address q) \<and> truthy (tokenId q) then
        (case last_entry (store_iterator (level d)
                (idPrefix q @ ''/'') (idPrefix q @ ''/~'')) of
           Some (key, val) \<Rightarrow> Inr (keyToDatum key, val)
         | None \<Rightarrow> Inl LevelNotFound)
      else Inl InsufficientParameters)"

subsection \<open>\<^verbatim>\<open>getIdsChanged\<close>\<close>

text \<open>\<^verbatim>\<open>Map.prototype.set\<close>: a key that is present keeps its position.\<close>

fun map_set :: "('k \<times> 'a) list \<Rightarrow> 'k \<Rightarrow> 'a \<Rightarrow> ('k \<times> 'a) list" where
  "map_set [] k v = [(k, v)]"
| "map_set ((k', v') # m) k v =
     (if k' = k then (k, v) # m else (k', v') # map_set m k v)"

text \<open>The body of the loop: \<open>nid\<close> and \<open>id\<close> of a change key.\<close>

definition changeKey_ids :: "string \<Rightarrow> (string \<times> string) result" where
  "changeKey_ids key =
     (let segs = split_on CHR ''/'' key;
          nid = tmpl (nth_opt segs 1) @ ''/'' @ tmpl (nth_opt segs 2) @ ''/'' @
                tmpl (nth_opt segs 3)
      in case nth_opt segs 0 of
           None \<Rightarrow> Inl NumberNotModelled
         | Some b \<Rightarrow>
             (case decodeNumber b of
                None \<Rightarrow> Inl NumberNotModelled
              | Some n \<Rightarrow> Inr (nid, nid @ ''/'' @ n)))"

fun getIdsChanged_loop ::
  "(string \<times> string) list \<Rightarrow> string store \<Rightarrow> (string \<times> string) list result" where
  "getIdsChanged_loop ids [] = Inr ids"
| "getIdsChanged_loop ids ((key, val) # rest) =
     (case changeKey_ids key of
        Inl e \<Rightarrow> Inl e
      | Inr (nid, ident) \<Rightarrow> getIdsChanged_loop (map_set ids nid ident) rest)"

definition getIdsChanged_range :: "string \<Rightarrow> string option \<Rightarrow> (string \<times> string) result" where
  "getIdsChanged_range from to =
     (case encodeNumber (Some from) of
        Inl e \<Rightarrow> Inl e
      | Inr f \<Rightarrow>
          (case encodeNumber (Some (case to of None \<Rightarrow> from | Some t \<Rightarrow> t)) of
             Inl e \<Rightarrow> Inl e
           | Inr t \<Rightarrow> Inr (f @ ''/'', t @ ''/~'')))"

definition getIdsChanged :: "'v db \<Rightarrow> string \<Rightarrow> string option \<Rightarrow> string list result" where
  "getIdsChanged d from to =
     (case getIdsChanged_range from to of
        Inl e \<Rightarrow> Inl e
      | Inr (gte, lte) \<Rightarrow>
          (case getIdsChanged_loop [] (store_iterator (changeIndex d) gte lte) of
             Inl e \<Rightarrow> Inl e
           | Inr ids \<Rightarrow> Inr (map snd ids)))"

subsection \<open>\<^verbatim>\<open>insert\<close>, \<^verbatim>\<open>del\<close>, \<^verbatim>\<open>createChangeIndex\<close>\<close>

definition insert_db :: "'v db \<Rightarrow> datum \<Rightarrow> 'v \<Rightarrow> unit result \<times> 'v db" where
  "insert_db d q data =
     (let d1 = level_put d (datumToKey q) data in
      case datumToChangeKey q of
        Inl e \<Rightarrow> (Inl e, d1)
      | Inr ck \<Rightarrow> (Inr (), changeIndex_put d1 ck []))"

definition del :: "'v db \<Rightarrow> datum \<Rightarrow> unit result \<times> 'v db" where
  "del d q =
     (let d1 = level_del d (datumToKey q) in
      case datumToChangeKey q of
        Inl e \<Rightarrow> (Inl e, d1)
      | Inr ck \<Rightarrow> (Inr (), changeIndex_del d1 ck))"

text \<open>The loop over the entries of \<open>level\<close>; the result is the count that is logged.\<close>

fun createChangeIndex_loop :: "'v db \<Rightarrow> nat \<Rightarrow> 'v store \<Rightarrow> nat result \<times> 'v db" where
  "createChangeIndex_loop d count [] = (Inr count, d)"
| "createChangeIndex_loop d count ((key, val) # rest) =
     (case datumToChangeKey (keyToDatum key) of
        Inl e \<Rightarrow> (Inl e, d)
      | Inr ck \<Rightarrow> createChangeIndex_loop (changeIndex_put d ck []) (count + 1) rest)"

definition createChangeIndex :: "'v db \<Rightarrow> nat result \<times> 'v db" where
  "createChangeIndex d = createChangeIndex_loop d 0 (level d)"

section \<open>Scenarios\<close>

text \<open>A datum with all four fields, and a query without block number.\<close>

definition full :: "string \<Rightarrow> string \<Rightarrow> string \<Rightarrow> string \<Rightarrow> datum" where
  "full c a t b = \<lparr>chainId = Some c, address = Some a, tokenId = Some t, blockNumber = Some b\<rparr>"

definition token :: "string \<Rightarrow> string \<Rightarrow> string \<Rightarrow> datum" where
  "token c a t = \<lparr>chainId = Some c, address = Some a, tokenId = Some t, blockNumber = None\<rparr>"

definition contract :: "string \<Rightarrow> string \<Rightarrow> string option \<Rightarrow> datum" where
  "contract c a b = \<lparr>chainId = Some c, address = Some a, tokenId = None, blockNumber = b\<rparr>"

text \<open>Inserting a list of versions into a database, in order, ignoring the results.\<close>

fun insert_all :: "'v db \<Rightarrow> (datum \<times> 'v) list \<Rightarrow> 'v db" where
  "insert_all d [] = d"
| "insert_all d ((q, data) # rest) = insert_all (snd (insert_db d q data)) rest"

text \<open>The versions of the test "should get value at latest block number".\<close>

definition db_100_101 :: "string db" where
  "db_100_101 = insert_all empty_db
     [(full ''1'' ''0x01'' ''1'' ''100'', ''data''),
      (full ''1'' ''0x01'' ''1'' ''101'', ''updated-data'')]"

text \<open>Two versions of one token at blocks with different numbers of digits.\<close>

definition db_9_10 :: "string db" where
  "db_9_10 = insert_all empty_db
     [(full ''1'' ''0x01'' ''1'' ''9'', ''data''),
      (full ''1'' ''0x01'' ''1'' ''10'', ''updated-data'')]"

text \<open>The version of the test "should be able insert values".\<close>

definition db_95 :: "string db" where
  "db_95 = insert_all empty_db [(full ''1'' ''0x13'' ''5'' ''95'', ''data'')]"

text \<open>The versions of the test "provided with only chainId and address".\<close>

definition db_tokens :: "string db" where
  "db_tokens = insert_all empty_db
     [(full ''1'' ''0xb8'' ''1'' ''110'', ''A''),
      (full ''1'' ''0xb8'' ''2'' ''110'', ''B''),
      (full ''1'' ''0xb8'' ''2'' ''120'', ''B2''),
      (full ''1'' ''0xb8'' ''3'' ''130'', ''C''),
      (full ''1'' ''0xc8'' ''3'' ''110'', ''D'')]"

text \<open>The first scenario after one more insert.\<close>

definition db_100_101_95 :: "string db" where
  "db_100_101_95 = insert_all db_100_101 [(full ''1'' ''0x13'' ''5'' ''95'', ''data'')]"

text \<open>Joining segments with a separator: the inverse of \<open>split_on\<close>, used in proofs only.\<close>

fun join_on :: "char \<Rightarrow> string list \<Rightarrow> string" where
  "join_on sep [] = []"
| "join_on sep [s] = s"
| "join_on sep (s # t # ts) = s @ sep # join_on sep (t # ts)"

text \<open>The change keys written by the loop: those of the entries before the first failure.\<close>

fun marks :: "'v store \<Rightarrow> string list" where
  "marks [] = []"
| "marks ((key, val) # rest) =
     (case datumToChangeKey (keyToDatum key) of
        Inl e \<Rightarrow> []
      | Inr ck \<Rightarrow> ck # marks rest)"

section \<open>Properties of the key codec\<close>

subsection \<open>Digits\<close>

lemma replicate_numeral: "replicate (numeral k) x = x # replicate (pred_numeral k) x"
  by (simp add: numeral_eq_Suc)

lemma is_digit_cases:
  assumes "is_digit c"
  shows "c \<in> set ''0123456789''"
proof -
  have r: "48 \<le> (of_char c :: nat) \<and> (of_char c :: nat) \<le> 57"
    using assms by (simp add: is_digit_def less_eq_char_def)
  then have "(of_char c :: nat) \<in> {48, 49, 50, 51, 52, 53, 54, 55, 56, 57}"
    by simp arith
  then have "(of_char c :: nat) \<in> of_char ` set ''0123456789''"
    by simp
  then obtain d where d: "(of_char c :: nat) = of_char d" "d \<in> set ''0123456789''"
    by (rule imageE)
  from d(1) have "c = d" by (simp only: of_char_eq_iff)
  with d(2) show ?thesis by (simp only:)
qed

lemma digit_table:
  assumes "is_digit c"
  shows "''0123456789'' ! digit_val c = c" and "digit_val c < 10"
  using is_digit_cases [OF assms] by (auto simp: digit_val_def)

lemma digit_val_pos: "is_digit c \<Longrightarrow> c \<noteq> CHR ''0'' \<Longrightarrow> 0 < digit_val c"
  using is_digit_cases [of c] by (auto simp: digit_val_def)

lemma nat_of_digits_snoc:
  "nat_of_digits (s @ [c]) = 10 * nat_of_digits s + digit_val c"
  by (simp add: nat_of_digits_def)

lemma nat_of_digits_zeros: "nat_of_digits (replicate k CHR ''0'' @ s) = nat_of_digits s"
proof -
  have "foldl (\<lambda>n c. 10 * n + digit_val c) 0 (replicate k CHR ''0'') = 0"
    by (induction k) (simp_all add: digit_val_def)
  then show ?thesis by (simp add: nat_of_digits_def)
qed

lemma nat_of_digits_bound:
  "list_all is_digit s \<Longrightarrow> nat_of_digits s < 10 ^ length s"
proof (induction s rule: rev_induct)
  case Nil
  then show ?case by (simp add: nat_of_digits_def)
next
  case (snoc c s)
  then have "nat_of_digits s < 10 ^ length s" and "digit_val c < 10"
    by (simp_all add: digit_table)
  then show ?case by (simp add: nat_of_digits_snoc)
qed

lemma nat_of_digits_pos:
  "list_all is_digit s \<Longrightarrow> s \<noteq> [] \<Longrightarrow> hd s \<noteq> CHR ''0'' \<Longrightarrow> 0 < nat_of_digits s"
proof (induction s rule: rev_induct)
  case Nil
  then show ?case by simp
next
  case (snoc c s)
  show ?case
  proof (cases "s = []")
    case True
    with snoc.prems show ?thesis
      by (simp add: nat_of_digits_def digit_val_pos)
  next
    case False
    with snoc have "0 < nat_of_digits s" by simp
    then show ?thesis by (simp add: nat_of_digits_snoc)
  qed
qed

lemma js_toString_canonical:
  "canonical_decimal s \<Longrightarrow> js_toString (nat_of_digits s) = s"
proof (induction s rule: rev_induct)
  case Nil
  then show ?case by (simp add: canonical_decimal_def)
next
  case (snoc c s)
  from snoc.prems have dc: "is_digit c" and ds: "list_all is_digit s"
    by (simp_all add: canonical_decimal_def)
  show ?case
  proof (cases "s = []")
    case True
    with dc show ?thesis
      by (simp add: nat_of_digits_def js_toString.simps [of "digit_val c"] digit_table)
  next
    case False
    with snoc.prems have nz: "hd s \<noteq> CHR ''0''"
      by (auto simp: canonical_decimal_def)
    with False ds have can: "canonical_decimal s"
      by (simp add: canonical_decimal_def)
    from nz False ds have "0 < nat_of_digits s"
      by (simp add: nat_of_digits_pos)
    then have big: "\<not> 10 * nat_of_digits s + digit_val c < 10" by simp
    have "js_toString (10 * nat_of_digits s + digit_val c) =
            js_toString (nat_of_digits s) @ [c]"
      using big dc
      by (subst js_toString.simps) (simp add: digit_table)
    with snoc.IH [OF can] show ?thesis
      by (simp add: nat_of_digits_snoc)
  qed
qed

lemmas number_defs =
  decodeNumber_def js_Number_def nat_of_digits_def is_digit_def digit_val_def
  MAX_SAFE_INTEGER_def js_toString.simps

lemmas codec_defs =
  encodeNumber_def MAX_LENGTH_def padStart_def datumToChangeKey_def datumToKey_def
  keyToDatum_def nth_opt_def tmpl_def or_empty_def truthy_def

subsection \<open>Block numbers\<close>

text \<open>
  C5. For every canonical decimal numeral \<open>n\<close> of at most 10 digits, \<open>encodeNumber\<close>
  succeeds and \<open>decodeNumber\<close> of its result is \<open>n\<close> again; for every string of more than
  10 characters \<open>encodeNumber\<close> fails with the encoding error (it neither truncates nor
  pads).
\<close>

theorem encode_decode_roundtrip:
  "(canonical_decimal n \<and> length n \<le> 10 \<longrightarrow>
      (\<exists>p. encodeNumber (Some n) = Inr p \<and> decodeNumber p = Some n)) \<and>
   (length s > 10 \<longrightarrow> encodeNumber (Some s) = Inl EncodingError)"
proof (intro conjI impI)
  assume a: "canonical_decimal n \<and> length n \<le> 10"
  then have dig: "list_all is_digit n" by (simp add: canonical_decimal_def)
  let ?p = "padStart MAX_LENGTH CHR ''0'' n"
  have enc: "encodeNumber (Some n) = Inr ?p"
    using a by (simp add: encodeNumber_def MAX_LENGTH_def)
  have val: "nat_of_digits ?p = nat_of_digits n"
    by (simp add: padStart_def nat_of_digits_zeros)
  have "nat_of_digits n < 10 ^ length n"
    using dig by (rule nat_of_digits_bound)
  also have "\<dots> \<le> (10::nat) ^ 10"
    using a by (intro power_increasing) simp_all
  finally have small: "nat_of_digits n \<le> MAX_SAFE_INTEGER"
    by (simp add: MAX_SAFE_INTEGER_def)
  have digp: "list_all is_digit ?p"
    using dig by (auto simp: padStart_def list_all_iff is_digit_def)
  have "decodeNumber ?p = Some n"
    using small digp val a by (simp add: decodeNumber_def js_Number_def js_toString_canonical)
  with enc show "\<exists>p. encodeNumber (Some n) = Inr p \<and> decodeNumber p = Some n"
    by blast
next
  assume "length s > 10"
  then show "encodeNumber (Some s) = Inl EncodingError"
    by (simp add: encodeNumber_def MAX_LENGTH_def)
qed

theorem encode_decode_roundtrip_witness:
  "canonical_decimal ''120'' \<and> length ''120'' \<le> 10 \<and>
   (\<exists>p. encodeNumber (Some ''120'') = Inr p \<and> decodeNumber p = Some ''120'') \<and>
   length ''12345678901'' > 10 \<and>
   encodeNumber (Some ''12345678901'') = Inl EncodingError"
  using encode_decode_roundtrip [of "''120''" "''12345678901''"]
  by (simp add: canonical_decimal_def is_digit_def)

subsection \<open>Identity keys\<close>

lemma split_on_not_Nil: "split_on sep s \<noteq> []"
  by (induction s) (auto split: list.splits)

lemma join_on_Cons_head: "join_on sep ((c # seg) # segs) = c # join_on sep (seg # segs)"
  by (cases segs) simp_all

lemma join_on_split_on: "join_on sep (split_on sep s) = s"
proof (induction s)
  case Nil
  show ?case by simp
next
  case (Cons c cs)
  obtain seg segs where sp: "split_on sep cs = seg # segs"
    using split_on_not_Nil [of sep cs] by (cases "split_on sep cs") auto
  with Cons show ?case
    by (simp add: join_on_Cons_head)
qed

lemma split_on_no_sep: "seg \<in> set (split_on sep s) \<Longrightarrow> sep \<notin> set seg"
  by (induction s arbitrary: seg) (auto split: if_splits list.splits)

text \<open>
  C8, as the code has it. \<open>keyToDatum\<close> never fails, whatever the number of segments.
  The segments of a key are its parts between the separators: there is at least one,
  none contains \<^verbatim>\<open>/\<close>, and joined by \<^verbatim>\<open>/\<close> they give the key. The fields chain id,
  address, token id and block number are, in this order, the first four segments; where
  there are fewer than four, the fields after the last segment are \<^verbatim>\<open>undefined\<close>, and
  segments after the fourth are dropped. So the chain id is always defined, and with
  fewer than four segments the block number is \<^verbatim>\<open>undefined\<close>; with exactly four,
  \<open>datumToKey\<close> gives the key back.
\<close>

theorem keyToDatum_total:
  "split_on CHR ''/'' key \<noteq> [] \<and>
   join_on CHR ''/'' (split_on CHR ''/'' key) = key \<and>
   (\<forall>seg \<in> set (split_on CHR ''/'' key). CHR ''/'' \<notin> set seg) \<and>
   [chainId (keyToDatum key), address (keyToDatum key), tokenId (keyToDatum key),
    blockNumber (keyToDatum key)] =
     map Some (take 4 (split_on CHR ''/'' key)) @
     replicate (4 - length (split_on CHR ''/'' key)) None \<and>
   chainId (keyToDatum key) \<noteq> None \<and>
   (length (split_on CHR ''/'' key) < 4 \<longrightarrow> blockNumber (keyToDatum key) = None) \<and>
   (length (split_on CHR ''/'' key) \<ge> 4 \<longrightarrow>
      [chainId (keyToDatum key), address (keyToDatum key), tokenId (keyToDatum key),
       blockNumber (keyToDatum key)] = map Some (take 4 (split_on CHR ''/'' key))) \<and>
   (length (split_on CHR ''/'' key) = 4 \<longrightarrow> datumToKey (keyToDatum key) = key)"
proof (intro conjI impI ballI)
  show "split_on CHR ''/'' key \<noteq> []" by (rule split_on_not_Nil)
next
  show "join_on CHR ''/'' (split_on CHR ''/'' key) = key" by (rule join_on_split_on)
next
  fix seg assume "seg \<in> set (split_on CHR ''/'' key)"
  then show "CHR ''/'' \<notin> set seg" by (rule split_on_no_sep)
next
  let ?segs = "split_on CHR ''/'' key"
  let ?goal = "[chainId (keyToDatum key), address (keyToDatum key), tokenId (keyToDatum key),
    blockNumber (keyToDatum key)] =
     map Some (take 4 ?segs) @ replicate (4 - length ?segs) None"
  from split_on_not_Nil [of "CHR ''/''" key] obtain a r1 where s1: "?segs = a # r1"
    by (auto simp: neq_Nil_conv)
  show ?goal
  proof (cases r1)
    case Nil
    with s1 show ?thesis
      by (simp add: keyToDatum_def nth_opt_def Let_def replicate_numeral)
  next
    case (Cons b r2)
    note s2 = this
    show ?thesis
    proof (cases r2)
      case Nil
      with s1 s2 show ?thesis
        by (simp add: keyToDatum_def nth_opt_def Let_def replicate_numeral)
    next
      case (Cons c r3)
      with s1 s2 show ?thesis
        by (cases r3) (simp_all add: keyToDatum_def nth_opt_def Let_def replicate_numeral)
    qed
  qed
next
  show "chainId (keyToDatum key) \<noteq> None"
    using split_on_not_Nil [of "CHR ''/''" key]
    by (simp add: keyToDatum_def nth_opt_def Let_def)
next
  assume "length (split_on CHR ''/'' key) < 4"
  then show "blockNumber (keyToDatum key) = None"
    by (simp add: keyToDatum_def nth_opt_def Let_def)
next
  assume "length (split_on CHR ''/'' key) \<ge> 4"
  then obtain a b c d rest where "split_on CHR ''/'' key = a # b # c # d # rest"
    by (auto simp: Suc_le_length_iff eval_nat_numeral)
  then show "[chainId (keyToDatum key), address (keyToDatum key), tokenId (keyToDatum key),
       blockNumber (keyToDatum key)] = map Some (take 4 (split_on CHR ''/'' key))"
    by (simp add: keyToDatum_def nth_opt_def Let_def)
next
  assume "length (split_on CHR ''/'' key) = 4"
  then obtain a b c d where sp: "split_on CHR ''/'' key = [a, b, c, d]"
    by (auto simp: length_Suc_conv eval_nat_numeral)
  have "join_on CHR ''/'' (split_on CHR ''/'' key) = key"
    by (rule join_on_split_on)
  with sp show "datumToKey (keyToDatum key) = key"
    by (simp add: keyToDatum_def nth_opt_def Let_def datumToKey_def or_empty_def)
qed

theorem keyToDatum_total_witness:
  "length (split_on CHR ''/'' ''1/0xa/5/120'') = 4 \<and>
   datumToKey (keyToDatum ''1/0xa/5/120'') = ''1/0xa/5/120'' \<and>
   split_on CHR ''/'' ''1/0xa'' = [''1'', ''0xa''] \<and>
   length (split_on CHR ''/'' ''1/0xa'') < 4 \<and>
   [chainId (keyToDatum ''1/0xa''), address (keyToDatum ''1/0xa''),
    tokenId (keyToDatum ''1/0xa''), blockNumber (keyToDatum ''1/0xa'')] =
     [Some ''1'', Some ''0xa'', None, None] \<and>
   blockNumber (keyToDatum ''1/0xa'') = None"
proof -
  have sp: "split_on CHR ''/'' ''1/0xa'' = [''1'', ''0xa'']"
    and sp4: "length (split_on CHR ''/'' ''1/0xa/5/120'') = 4"
    by simp_all
  from keyToDatum_total [of "''1/0xa''"] sp
  have short: "[chainId (keyToDatum ''1/0xa''), address (keyToDatum ''1/0xa''),
      tokenId (keyToDatum ''1/0xa''), blockNumber (keyToDatum ''1/0xa'')] =
       [Some ''1'', Some ''0xa'', None, None]"
    and nb: "blockNumber (keyToDatum ''1/0xa'') = None"
    by (simp_all add: replicate_numeral)
  from keyToDatum_total [of "''1/0xa/5/120''"] sp4
  have "datumToKey (keyToDatum ''1/0xa/5/120'') = ''1/0xa/5/120''" by blast
  with sp sp4 short nb show ?thesis by simp
qed

text \<open>
  C8, as stated, fails: a key of three segments and a key of five segments are both
  decoded to a datum.
\<close>

theorem keyToDatum_counterexample:
  "length (split_on CHR ''/'' ''1/0xa/5'') \<noteq> 4 \<and>
   keyToDatum ''1/0xa/5'' =
     \<lparr>chainId = Some ''1'', address = Some ''0xa'', tokenId = Some ''5'', blockNumber = None\<rparr> \<and>
   length (split_on CHR ''/'' ''1/0xa/5/120/x'') \<noteq> 4 \<and>
   keyToDatum ''1/0xa/5/120/x'' =
     \<lparr>chainId = Some ''1'', address = Some ''0xa'', tokenId = Some ''5'',
      blockNumber = Some ''120''\<rparr>"
  by (simp add: keyToDatum_def nth_opt_def)

subsection \<open>Order of padded block numbers\<close>

lemma foldl_digits_acc:
  "foldl (\<lambda>n c. 10 * n + digit_val c) a s =
     a * 10 ^ length s + foldl (\<lambda>n c. 10 * n + digit_val c) 0 s"
proof (induction s rule: rev_induct)
  case Nil
  show ?case by simp
next
  case (snoc c s)
  then show ?case by (simp add: algebra_simps)
qed

lemma nat_of_digits_Cons:
  "nat_of_digits (c # s) = digit_val c * 10 ^ length s + nat_of_digits s"
  using foldl_digits_acc [of "digit_val c" s] by (simp add: nat_of_digits_def)

lemma digit_val_less: "is_digit x \<Longrightarrow> is_digit y \<Longrightarrow> digit_val x < digit_val y \<Longrightarrow> x < y"
  by (simp add: digit_val_def is_digit_def less_eq_char_def less_char_def)

lemma digit_val_inj: "is_digit x \<Longrightarrow> is_digit y \<Longrightarrow> digit_val x = digit_val y \<Longrightarrow> x = y"
  using digit_table(1) by metis

lemma digits_less_lex:
  "length a = length b \<Longrightarrow> list_all is_digit a \<Longrightarrow> list_all is_digit b \<Longrightarrow>
   nat_of_digits a < nat_of_digits b \<Longrightarrow> a < b"
proof (induction a b rule: list_induct2)
  case Nil
  then show ?case by (simp add: nat_of_digits_def)
next
  case (Cons x xs y ys)
  from Cons.prems have dx: "is_digit x" and dy: "is_digit y"
    and dxs: "list_all is_digit xs" and dys: "list_all is_digit ys"
    by simp_all
  have bx: "nat_of_digits xs < 10 ^ length xs" and by': "nat_of_digits ys < 10 ^ length ys"
    using dxs dys by (simp_all add: nat_of_digits_bound)
  from Cons.prems(3) have lt: "digit_val x * 10 ^ length ys + nat_of_digits xs <
                                digit_val y * 10 ^ length ys + nat_of_digits ys"
    using Cons.hyps by (simp add: nat_of_digits_Cons)
  consider "digit_val x < digit_val y" | "digit_val x = digit_val y" | "digit_val y < digit_val x"
    by linarith
  then show ?case
  proof cases
    case 1
    with dx dy show ?thesis by (simp add: digit_val_less)
  next
    case 2
    with dx dy have "x = y" by (simp add: digit_val_inj)
    moreover from 2 lt have "nat_of_digits xs < nat_of_digits ys" by simp
    ultimately show ?thesis using Cons.IH dxs dys by simp
  next
    case 3
    then have "(digit_val y + 1) * 10 ^ length ys \<le> digit_val x * 10 ^ length ys"
      by (intro mult_le_mono1) simp
    with by' have "digit_val y * 10 ^ length ys + nat_of_digits ys <
                   digit_val x * 10 ^ length ys"
      by (simp add: algebra_simps)
    with lt show ?thesis by simp
  qed
qed

lemma less_append_same_length:
  "length a = length b \<Longrightarrow> a < b \<Longrightarrow> a @ x < b @ (y :: string)"
  by (induction a b rule: list_induct2) auto

lemma padStart_digits:
  assumes "list_all is_digit s" and "length s \<le> MAX_LENGTH"
  shows "length (padStart MAX_LENGTH CHR ''0'' s) = MAX_LENGTH"
    and "list_all is_digit (padStart MAX_LENGTH CHR ''0'' s)"
    and "nat_of_digits (padStart MAX_LENGTH CHR ''0'' s) = nat_of_digits s"
  using assms by (auto simp: padStart_def list_all_iff is_digit_def nat_of_digits_zeros)

subsection \<open>Segments without separator\<close>

lemma split_on_no_sep_id: "sep \<notin> set a \<Longrightarrow> split_on sep a = [a]"
  by (induction a) auto

lemma split_on_append: "sep \<notin> set a \<Longrightarrow> split_on sep (a @ sep # r) = a # split_on sep r"
  by (induction a) auto

lemma tmpl_no_sep:
  "nth_opt (split_on CHR ''/'' key) i = x \<Longrightarrow> CHR ''/'' \<notin> set (tmpl x)"
  by (cases x) (auto simp: tmpl_def nth_opt_def split: if_splits dest: split_on_no_sep [OF nth_mem])

lemma js_toString_digits: "list_all is_digit (js_toString n)"
proof (induction n rule: js_toString.induct)
  case (1 n)
  have d: "is_digit (''0123456789'' ! k)" if "k < 10" for k
  proof -
    from that have "k \<in> {0, 1, 2, 3, 4, 5, 6, 7, 8, 9}" by auto
    then show ?thesis by (auto simp: is_digit_def)
  qed
  show ?case
  proof (cases "n < 10")
    case True
    then show ?thesis by (subst js_toString.simps) (simp add: d)
  next
    case False
    with 1 show ?thesis by (subst js_toString.simps) (simp add: d)
  qed
qed

lemma digits_no_sep: "list_all is_digit s \<Longrightarrow> CHR ''/'' \<notin> set s"
  by (auto simp: list_all_iff is_digit_def)

lemma decodeNumber_padStart:
  assumes "canonical_decimal n" and "length n \<le> MAX_LENGTH"
  shows "decodeNumber (padStart MAX_LENGTH CHR ''0'' n) = Some n"
proof -
  from assms(1) have dig: "list_all is_digit n" by (simp add: canonical_decimal_def)
  have "nat_of_digits n < 10 ^ length n"
    using dig by (rule nat_of_digits_bound)
  also have "\<dots> \<le> (10::nat) ^ 10"
    using assms(2) by (intro power_increasing) (simp_all add: MAX_LENGTH_def)
  finally have small: "nat_of_digits n \<le> MAX_SAFE_INTEGER"
    by (simp add: MAX_SAFE_INTEGER_def)
  from small padStart_digits(2,3) [OF dig assms(2)] assms(1) show ?thesis
    by (simp add: decodeNumber_def js_Number_def js_toString_canonical)
qed

lemma padStart_no_sep:
  "list_all is_digit s \<Longrightarrow> CHR ''/'' \<notin> set (padStart n CHR ''0'' s)"
  by (auto simp: padStart_def dest: digits_no_sep)

text \<open>The two keys of one datum decode to the same identity and block number.\<close>

lemma keys_of_datum:
  assumes "CHR ''/'' \<notin> set c" and "CHR ''/'' \<notin> set a" and "CHR ''/'' \<notin> set t"
    and "canonical_decimal b" and "length b \<le> MAX_LENGTH"
  shows "keyToDatum (c @ ''/'' @ a @ ''/'' @ t @ ''/'' @ b) = full c a t b"
    and "changeKey_ids (padStart MAX_LENGTH CHR ''0'' b @ ''/'' @ c @ ''/'' @ a @ ''/'' @ t) =
           Inr (c @ ''/'' @ a @ ''/'' @ t, c @ ''/'' @ a @ ''/'' @ t @ ''/'' @ b)"
proof -
  from assms(4) have dig: "list_all is_digit b" by (simp add: canonical_decimal_def)
  then have sb: "CHR ''/'' \<notin> set b" by (rule digits_no_sep)
  have "split_on CHR ''/'' (c @ ''/'' @ a @ ''/'' @ t @ ''/'' @ b) = [c, a, t, b]"
    using assms(1-3) sb by (simp add: split_on_append split_on_no_sep_id)
  then show "keyToDatum (c @ ''/'' @ a @ ''/'' @ t @ ''/'' @ b) = full c a t b"
    by (simp add: keyToDatum_def nth_opt_def full_def)
  let ?p = "padStart MAX_LENGTH CHR ''0'' b"
  have sp: "CHR ''/'' \<notin> set ?p" using dig by (rule padStart_no_sep)
  have "split_on CHR ''/'' (?p @ ''/'' @ c @ ''/'' @ a @ ''/'' @ t) = [?p, c, a, t]"
    using assms(1-3) sp by (simp add: split_on_append split_on_no_sep_id)
  then show "changeKey_ids (?p @ ''/'' @ c @ ''/'' @ a @ ''/'' @ t) =
           Inr (c @ ''/'' @ a @ ''/'' @ t, c @ ''/'' @ a @ ''/'' @ t @ ''/'' @ b)"
    by (simp add: changeKey_ids_def nth_opt_def tmpl_def decodeNumber_padStart [OF assms(4,5)])
qed

section \<open>Properties of the store\<close>

lemma map_of_store_put: "map_of (store_put s k v) = (map_of s)(k \<mapsto> v)"
  by (induction s) (auto simp: fun_upd_twist)

lemma map_of_store_del: "map_of (store_del s k) = (map_of s)(k := None)"
  by (induction s) (auto simp: store_del_def)

lemma set_store_put_keys: "fst ` set (store_put s k v) = insert k (fst ` set s)"
  by (simp add: dom_map_of_conv_image_fst [symmetric] map_of_store_put)

lemma sorted_store_put: "sorted_store s \<Longrightarrow> sorted_store (store_put s k v)"
proof (induction s)
  case Nil
  show ?case by (simp add: sorted_store_def)
next
  case (Cons e s)
  obtain k' v' where e: "e = (k', v')" by (cases e)
  from Cons.prems have tl: "sorted_store s" and hd: "\<forall>x \<in> fst ` set s. k' < x"
    by (auto simp: sorted_store_def e)
  from Cons.IH [OF tl] have ih: "sorted_store (store_put s k v)" .
  show ?case
  proof (cases "k < k'")
    case True
    with Cons.prems show ?thesis
      by (auto simp: sorted_store_def e)
  next
    case False
    show ?thesis
    proof (cases "k = k'")
      case True
      with Cons.prems show ?thesis by (simp add: sorted_store_def e)
    next
      case ne: False
      with False have "k' < k" by simp
      with hd have "\<forall>x \<in> fst ` set (store_put s k v). k' < x"
        by (simp add: set_store_put_keys)
      with ih False ne show ?thesis
        by (simp add: sorted_store_def e)
    qed
  qed
qed

lemma sorted_store_del: "sorted_store s \<Longrightarrow> sorted_store (store_del s k)"
  by (simp add: sorted_store_def store_del_def sorted_wrt_filter filter_map [symmetric] comp_def sorted_wrt_map)

lemma store_put_present:
  "sorted_store s \<Longrightarrow> (k, v) \<in> set s \<Longrightarrow> store_put s k v = s"
proof (induction s)
  case Nil
  then show ?case by simp
next
  case (Cons e s)
  obtain k' v' where e: "e = (k', v')" by (cases e)
  from Cons.prems(1) have tl: "sorted_store s" and hd: "\<forall>x \<in> set s. k' < fst x"
    by (auto simp: sorted_store_def e)
  show ?case
  proof (cases "(k, v) \<in> set s")
    case True
    with hd have "k' < k" by auto
    then have "k \<noteq> k'" and "\<not> k < k'" by auto
    with Cons.IH [OF tl True] show ?thesis by (simp add: e)
  next
    case False
    with Cons.prems(2) have "(k, v) = (k', v')" by (simp add: e)
    then show ?thesis by (simp add: e)
  qed
qed

lemma store_put_keeps:
  "(x, y) \<in> set s \<Longrightarrow> x \<noteq> k \<or> y = v \<Longrightarrow> (x, y) \<in> set (store_put s k v)"
  by (induction s) auto

lemma store_put_mem: "(k, v) \<in> set (store_put s k v)"
  by (induction s) auto

lemma store_iterator_sorted:
  "sorted_store s \<Longrightarrow> sorted_store (store_iterator s gte lte)"
  by (simp add: sorted_store_def store_iterator_def sorted_wrt_map sorted_wrt_filter)

section \<open>Properties of the database\<close>

lemmas db_defs =
  insert_db_def del_def level_put_def level_del_def changeIndex_put_def changeIndex_del_def
  empty_db_def store_del_def store_iterator_def full_def token_def contract_def
  getOne_def getMany_def getMany_filter_def idPrefix_def js_or_def js_le_def last_entry_def

subsection \<open>The scenario databases\<close>

lemma db_100_101_eq:
  "db_100_101 =
     \<lparr>level = [(''1/0x01/1/100'', ''data''), (''1/0x01/1/101'', ''updated-data'')],
      changeIndex = [(''0000000100/1/0x01/1'', []), (''0000000101/1/0x01/1'', [])],
      writes = [LevelPut ''1/0x01/1/100'', ChangePut ''0000000100/1/0x01/1'',
                LevelPut ''1/0x01/1/101'', ChangePut ''0000000101/1/0x01/1'']\<rparr>"
  by (simp add: db_100_101_def db_defs codec_defs replicate_numeral)

lemma db_100_101_95_eq:
  "db_100_101_95 =
     \<lparr>level = [(''1/0x01/1/100'', ''data''), (''1/0x01/1/101'', ''updated-data''),
               (''1/0x13/5/95'', ''data'')],
      changeIndex = [(''0000000095/1/0x13/5'', []), (''0000000100/1/0x01/1'', []),
                     (''0000000101/1/0x01/1'', [])],
      writes = [LevelPut ''1/0x01/1/100'', ChangePut ''0000000100/1/0x01/1'',
                LevelPut ''1/0x01/1/101'', ChangePut ''0000000101/1/0x01/1'',
                LevelPut ''1/0x13/5/95'', ChangePut ''0000000095/1/0x13/5'']\<rparr>"
  by (simp add: db_100_101_95_def db_100_101_eq db_defs codec_defs replicate_numeral)

lemma db_9_10_eq:
  "db_9_10 =
     \<lparr>level = [(''1/0x01/1/10'', ''updated-data''), (''1/0x01/1/9'', ''data'')],
      changeIndex = [(''0000000009/1/0x01/1'', []), (''0000000010/1/0x01/1'', [])],
      writes = [LevelPut ''1/0x01/1/9'', ChangePut ''0000000009/1/0x01/1'',
                LevelPut ''1/0x01/1/10'', ChangePut ''0000000010/1/0x01/1'']\<rparr>"
  by (simp add: db_9_10_def db_defs codec_defs replicate_numeral)

lemma till_default: "js_toString MAX_SAFE_INTEGER = ''9007199254740991''"
  by (simp add: MAX_SAFE_INTEGER_def js_toString.simps)

lemma db_95_eq:
  "db_95 =
     \<lparr>level = [(''1/0x13/5/95'', ''data'')],
      changeIndex = [(''0000000095/1/0x13/5'', [])],
      writes = [LevelPut ''1/0x13/5/95'', ChangePut ''0000000095/1/0x13/5'']\<rparr>"
  by (simp add: db_95_def db_defs codec_defs replicate_numeral)

lemma db_tokens_level:
  "level db_tokens =
     [(''1/0xb8/1/110'', ''A''), (''1/0xb8/2/110'', ''B''), (''1/0xb8/2/120'', ''B2''),
      (''1/0xb8/3/130'', ''C''), (''1/0xc8/3/110'', ''D'')]"
  by (simp add: db_tokens_def db_defs codec_defs replicate_numeral)

subsection \<open>\<^verbatim>\<open>insert\<close>\<close>

text \<open>
  C6. A successful \<open>insert_db\<close> issues two writes, the put of the primary key first and
  the put of the change key second. Both keys are built from the fields of the one datum:
  the primary key is chain id, address, token id and block number joined by \<^verbatim>\<open>/\<close>, the
  change key is the block number padded to 10 digits followed by chain id, address and
  token id. After the insert the primary store holds the payload at the primary key, the
  change index holds the marker at the change key, and every other key of either store
  is as before. When the fields contain no \<^verbatim>\<open>/\<close> and the block number is a canonical
  decimal, the primary key decodes to the datum and the marker decodes to the identity
  and the primary key of the same datum.
\<close>

theorem insert_db_writes:
  assumes "insert_db d q data = (Inr (), d')"
  shows "\<exists>b. blockNumber q = Some b \<and> length b \<le> 10 \<and>
           datumToKey q =
             or_empty (chainId q) @ ''/'' @ or_empty (address q) @ ''/'' @
             or_empty (tokenId q) @ ''/'' @ b \<and>
           datumToChangeKey q =
             Inr (padStart 10 CHR ''0'' b @ ''/'' @ tmpl (chainId q) @ ''/'' @
                  tmpl (address q) @ ''/'' @ tmpl (tokenId q)) \<and>
           writes d' = writes d @
             [LevelPut (or_empty (chainId q) @ ''/'' @ or_empty (address q) @ ''/'' @
                        or_empty (tokenId q) @ ''/'' @ b),
              ChangePut (padStart 10 CHR ''0'' b @ ''/'' @ tmpl (chainId q) @ ''/'' @
                         tmpl (address q) @ ''/'' @ tmpl (tokenId q))] \<and>
           level d' =
             store_put (level d)
               (or_empty (chainId q) @ ''/'' @ or_empty (address q) @ ''/'' @
                or_empty (tokenId q) @ ''/'' @ b) data \<and>
           changeIndex d' =
             store_put (changeIndex d)
               (padStart 10 CHR ''0'' b @ ''/'' @ tmpl (chainId q) @ ''/'' @
                tmpl (address q) @ ''/'' @ tmpl (tokenId q)) [] \<and>
           map_of (level d') =
             (map_of (level d))
               (or_empty (chainId q) @ ''/'' @ or_empty (address q) @ ''/'' @
                or_empty (tokenId q) @ ''/'' @ b \<mapsto> data) \<and>
           map_of (changeIndex d') =
             (map_of (changeIndex d))
               (padStart 10 CHR ''0'' b @ ''/'' @ tmpl (chainId q) @ ''/'' @
                tmpl (address q) @ ''/'' @ tmpl (tokenId q) \<mapsto> []) \<and>
           (\<forall>c a t. q = full c a t b \<and> CHR ''/'' \<notin> set c \<and> CHR ''/'' \<notin> set a \<and>
               CHR ''/'' \<notin> set t \<and> canonical_decimal b \<longrightarrow>
               datumToKey q = c @ ''/'' @ a @ ''/'' @ t @ ''/'' @ b \<and>
               datumToChangeKey q =
                 Inr (padStart 10 CHR ''0'' b @ ''/'' @ c @ ''/'' @ a @ ''/'' @ t) \<and>
               keyToDatum (c @ ''/'' @ a @ ''/'' @ t @ ''/'' @ b) = q \<and>
               changeKey_ids (padStart 10 CHR ''0'' b @ ''/'' @ c @ ''/'' @ a @ ''/'' @ t) =
                 Inr (idPrefix q, datumToKey q))"
proof (cases "datumToChangeKey q")
  case (Inl e)
  with assms show ?thesis by (simp add: insert_db_def)
next
  case (Inr ck)
  then obtain b where b: "blockNumber q = Some b" and len: "length b \<le> 10"
    and ck: "ck = padStart 10 CHR ''0'' b @ ''/'' @ tmpl (chainId q) @ ''/'' @
                  tmpl (address q) @ ''/'' @ tmpl (tokenId q)"
    by (auto simp: datumToChangeKey_def encodeNumber_def MAX_LENGTH_def
             split: option.splits if_splits)
  let ?PK = "or_empty (chainId q) @ ''/'' @ or_empty (address q) @ ''/'' @
             or_empty (tokenId q) @ ''/'' @ b"
  let ?CK = "padStart 10 CHR ''0'' b @ ''/'' @ tmpl (chainId q) @ ''/'' @
             tmpl (address q) @ ''/'' @ tmpl (tokenId q)"
  have pk: "datumToKey q = ?PK"
    by (simp add: datumToKey_def b or_empty_def)
  have dck: "datumToChangeKey q = Inr ?CK"
    using Inr ck by (simp only:)
  from assms Inr have d': "d' = changeIndex_put (level_put d (datumToKey q) data) ck []"
    by (simp add: insert_db_def)
  have w: "writes d' = writes d @ [LevelPut ?PK, ChangePut ?CK]"
    unfolding pk [symmetric] ck [symmetric]
    by (simp add: d' changeIndex_put_def level_put_def)
  have l: "level d' = store_put (level d) ?PK data"
    unfolding pk [symmetric] by (simp add: d' changeIndex_put_def level_put_def)
  have c: "changeIndex d' = store_put (changeIndex d) ?CK []"
    unfolding ck [symmetric] by (simp add: d' changeIndex_put_def level_put_def)
  have ml: "map_of (level d') = (map_of (level d))(?PK \<mapsto> data)"
    unfolding l by (rule map_of_store_put)
  have mc: "map_of (changeIndex d') = (map_of (changeIndex d))(?CK \<mapsto> [])"
    unfolding c by (rule map_of_store_put)
  have same: "datumToKey q = c @ ''/'' @ a @ ''/'' @ t @ ''/'' @ b \<and>
               datumToChangeKey q =
                 Inr (padStart 10 CHR ''0'' b @ ''/'' @ c @ ''/'' @ a @ ''/'' @ t) \<and>
               keyToDatum (c @ ''/'' @ a @ ''/'' @ t @ ''/'' @ b) = q \<and>
               changeKey_ids (padStart 10 CHR ''0'' b @ ''/'' @ c @ ''/'' @ a @ ''/'' @ t) =
                 Inr (idPrefix q, datumToKey q)"
    if h: "q = full c a t b \<and> CHR ''/'' \<notin> set c \<and> CHR ''/'' \<notin> set a \<and>
               CHR ''/'' \<notin> set t \<and> canonical_decimal b" for c a t
  proof -
    from h have q: "q = full c a t b" and sep: "CHR ''/'' \<notin> set c" "CHR ''/'' \<notin> set a"
      "CHR ''/'' \<notin> set t" and can: "canonical_decimal b" by simp_all
    from len have len': "length b \<le> MAX_LENGTH" by (simp add: MAX_LENGTH_def)
    have k1: "datumToKey q = c @ ''/'' @ a @ ''/'' @ t @ ''/'' @ b"
      by (simp add: q full_def datumToKey_def or_empty_def)
    have k2: "datumToChangeKey q =
                 Inr (padStart 10 CHR ''0'' b @ ''/'' @ c @ ''/'' @ a @ ''/'' @ t)"
      using Inr ck by (simp add: q full_def tmpl_def)
    have ip: "idPrefix q = c @ ''/'' @ a @ ''/'' @ t"
      by (simp add: q full_def idPrefix_def tmpl_def)
    from keys_of_datum [OF sep can len'] k1 k2 ip show ?thesis
      by (simp add: q MAX_LENGTH_def)
  qed
  show ?thesis
  proof (intro exI [of _ b] conjI allI impI)
    show "blockNumber q = Some b" by (rule b)
    show "length b \<le> 10" by (rule len)
    show "datumToKey q = ?PK" by (rule pk)
    show "datumToChangeKey q = Inr ?CK" by (rule dck)
    show "writes d' = writes d @ [LevelPut ?PK, ChangePut ?CK]" by (rule w)
    show "level d' = store_put (level d) ?PK data" by (rule l)
    show "changeIndex d' = store_put (changeIndex d) ?CK []" by (rule c)
    show "map_of (level d') = (map_of (level d))(?PK \<mapsto> data)" by (rule ml)
    show "map_of (changeIndex d') = (map_of (changeIndex d))(?CK \<mapsto> [])" by (rule mc)
  next
    fix c a t
    assume h: "q = full c a t b \<and> CHR ''/'' \<notin> set c \<and> CHR ''/'' \<notin> set a \<and>
               CHR ''/'' \<notin> set t \<and> canonical_decimal b"
    from same [OF h] show "datumToKey q = c @ ''/'' @ a @ ''/'' @ t @ ''/'' @ b"
      and "datumToChangeKey q =
                 Inr (padStart 10 CHR ''0'' b @ ''/'' @ c @ ''/'' @ a @ ''/'' @ t)"
      and "keyToDatum (c @ ''/'' @ a @ ''/'' @ t @ ''/'' @ b) = q"
      and "changeKey_ids (padStart 10 CHR ''0'' b @ ''/'' @ c @ ''/'' @ a @ ''/'' @ t) =
                 Inr (idPrefix q, datumToKey q)"
      by simp_all
  qed
qed

theorem insert_db_writes_witness:
  "insert_db db_100_101 (full ''1'' ''0x13'' ''5'' ''95'') ''data'' = (Inr (), db_100_101_95) \<and>
   writes db_100_101_95 =
     writes db_100_101 @ [LevelPut ''1/0x13/5/95'', ChangePut ''0000000095/1/0x13/5''] \<and>
   map_of (level db_100_101_95) = (map_of (level db_100_101))(''1/0x13/5/95'' \<mapsto> ''data'') \<and>
   map_of (changeIndex db_100_101_95) =
     (map_of (changeIndex db_100_101))(''0000000095/1/0x13/5'' \<mapsto> []) \<and>
   level db_100_101_95 =
     [(''1/0x01/1/100'', ''data''), (''1/0x01/1/101'', ''updated-data''),
      (''1/0x13/5/95'', ''data'')] \<and>
   changeIndex db_100_101_95 =
     [(''0000000095/1/0x13/5'', []), (''0000000100/1/0x01/1'', []),
      (''0000000101/1/0x01/1'', [])] \<and>
   canonical_decimal ''95'' \<and>
   keyToDatum ''1/0x13/5/95'' = full ''1'' ''0x13'' ''5'' ''95'' \<and>
   changeKey_ids ''0000000095/1/0x13/5'' = Inr (''1/0x13/5'', ''1/0x13/5/95'')"
proof -
  have run: "insert_db db_100_101 (full ''1'' ''0x13'' ''5'' ''95'') ''data'' =
               (Inr (), db_100_101_95)"
    by (simp add: db_100_101_95_eq db_100_101_eq db_defs codec_defs replicate_numeral)
  have can: "canonical_decimal ''95''"
    by (simp add: canonical_decimal_def is_digit_def)
  from insert_db_writes [OF run] obtain b where
    b: "blockNumber (full ''1'' ''0x13'' ''5'' ''95'') = Some b"
    and w: "writes db_100_101_95 = writes db_100_101 @
             [LevelPut (or_empty (chainId (full ''1'' ''0x13'' ''5'' ''95'')) @ ''/'' @
                        or_empty (address (full ''1'' ''0x13'' ''5'' ''95'')) @ ''/'' @
                        or_empty (tokenId (full ''1'' ''0x13'' ''5'' ''95'')) @ ''/'' @ b),
              ChangePut (padStart 10 CHR ''0'' b @ ''/'' @
                         tmpl (chainId (full ''1'' ''0x13'' ''5'' ''95'')) @ ''/'' @
                         tmpl (address (full ''1'' ''0x13'' ''5'' ''95'')) @ ''/'' @
                         tmpl (tokenId (full ''1'' ''0x13'' ''5'' ''95'')))]"
    and ml: "map_of (level db_100_101_95) =
             (map_of (level db_100_101))
               (or_empty (chainId (full ''1'' ''0x13'' ''5'' ''95'')) @ ''/'' @
                or_empty (address (full ''1'' ''0x13'' ''5'' ''95'')) @ ''/'' @
                or_empty (tokenId (full ''1'' ''0x13'' ''5'' ''95'')) @ ''/'' @ b \<mapsto> ''data'')"
    and mc: "map_of (changeIndex db_100_101_95) =
             (map_of (changeIndex db_100_101))
               (padStart 10 CHR ''0'' b @ ''/'' @
                tmpl (chainId (full ''1'' ''0x13'' ''5'' ''95'')) @ ''/'' @
                tmpl (address (full ''1'' ''0x13'' ''5'' ''95'')) @ ''/'' @
                tmpl (tokenId (full ''1'' ''0x13'' ''5'' ''95'')) \<mapsto> [])"
    and same: "\<forall>c a t. full ''1'' ''0x13'' ''5'' ''95'' = full c a t b \<and>
               CHR ''/'' \<notin> set c \<and> CHR ''/'' \<notin> set a \<and>
               CHR ''/'' \<notin> set t \<and> canonical_decimal b \<longrightarrow>
               keyToDatum (c @ ''/'' @ a @ ''/'' @ t @ ''/'' @ b) =
                 full ''1'' ''0x13'' ''5'' ''95'' \<and>
               changeKey_ids (padStart 10 CHR ''0'' b @ ''/'' @ c @ ''/'' @ a @ ''/'' @ t) =
                 Inr (idPrefix (full ''1'' ''0x13'' ''5'' ''95''),
                      datumToKey (full ''1'' ''0x13'' ''5'' ''95''))"
    by blast
  from b have b95: "b = ''95''" by (simp add: full_def)
  from same [rule_format, of "''1''" "''0x13''" "''5''"] can
  have dec: "keyToDatum ''1/0x13/5/95'' = full ''1'' ''0x13'' ''5'' ''95'' \<and>
             changeKey_ids ''0000000095/1/0x13/5'' = Inr (''1/0x13/5'', ''1/0x13/5/95'')"
    by (simp add: b95 padStart_def replicate_numeral full_def idPrefix_def datumToKey_def
                  tmpl_def or_empty_def)
  from w ml mc have "writes db_100_101_95 =
     writes db_100_101 @ [LevelPut ''1/0x13/5/95'', ChangePut ''0000000095/1/0x13/5'']"
    and "map_of (level db_100_101_95) =
           (map_of (level db_100_101))(''1/0x13/5/95'' \<mapsto> ''data'')"
    and "map_of (changeIndex db_100_101_95) =
           (map_of (changeIndex db_100_101))(''0000000095/1/0x13/5'' \<mapsto> [])"
    by (simp_all add: b95 padStart_def replicate_numeral full_def tmpl_def or_empty_def)
  with run can dec show ?thesis
    by (simp add: db_100_101_95_eq)
qed

text \<open>When the block number cannot be encoded, the primary write has happened.\<close>

lemma insert_db_failure:
  assumes "insert_db d q data = (Inl e, d')"
  shows "datumToChangeKey q = Inl e \<and> d' = level_put d (datumToKey q) data \<and>
         changeIndex d' = changeIndex d"
  using assms by (auto simp: insert_db_def level_put_def Let_def split: sum.splits)

subsection \<open>\<^verbatim>\<open>del\<close>\<close>

text \<open>
  C7, as the code has it. \<open>del\<close> never fails with \<open>LevelNotFound\<close>. It deletes the primary
  key (nothing changes in the primary store when the key is absent) and then, when the
  block number can be encoded, deletes the change key and succeeds: the two deletions
  are issued in this order, whether the primary entry was present or not.
\<close>

theorem del_absent_succeeds:
  assumes "del d q = (r, d')"
  shows "r \<noteq> Inl LevelNotFound \<and>
         level d' = store_del (level d) (datumToKey q) \<and>
         map_of (level d') = (map_of (level d))(datumToKey q := None) \<and>
         (datumToKey q \<notin> fst ` set (level d) \<longrightarrow> level d' = level d) \<and>
         (\<forall>ck. datumToChangeKey q = Inr ck \<longrightarrow>
            r = Inr () \<and>
            writes d' = writes d @ [LevelDel (datumToKey q), ChangeDel ck] \<and>
            changeIndex d' = store_del (changeIndex d) ck \<and>
            map_of (changeIndex d') = (map_of (changeIndex d))(ck := None))"
proof -
  have enc: "datumToChangeKey q \<noteq> Inl LevelNotFound"
    by (auto simp: datumToChangeKey_def encodeNumber_def split: sum.splits option.splits)
  have absent: "datumToKey q \<notin> fst ` set (level d) \<Longrightarrow>
                  store_del (level d) (datumToKey q) = level d"
    by (force simp: store_del_def filter_id_conv)
  show ?thesis
  proof (cases "datumToChangeKey q")
    case (Inl e)
    with assms enc absent show ?thesis
      by (auto simp: del_def level_del_def map_of_store_del)
  next
    case (Inr ck)
    with assms absent show ?thesis
      by (auto simp: del_def level_del_def changeIndex_del_def map_of_store_del)
  qed
qed

theorem del_absent_succeeds_witness:
  "del db_100_101 (full ''1'' ''0x13'' ''5'' ''95'') =
     (Inr (), db_100_101\<lparr>writes := writes db_100_101 @
        [LevelDel ''1/0x13/5/95'', ChangeDel ''0000000095/1/0x13/5'']\<rparr>) \<and>
   datumToKey (full ''1'' ''0x13'' ''5'' ''95'') \<notin> fst ` set (level db_100_101) \<and>
   datumToChangeKey (full ''1'' ''0x13'' ''5'' ''95'') = Inr ''0000000095/1/0x13/5'' \<and>
   level (db_100_101\<lparr>writes := writes db_100_101 @
        [LevelDel ''1/0x13/5/95'', ChangeDel ''0000000095/1/0x13/5'']\<rparr>) = level db_100_101"
proof -
  have run: "del db_100_101 (full ''1'' ''0x13'' ''5'' ''95'') =
     (Inr (), db_100_101\<lparr>writes := writes db_100_101 @
        [LevelDel ''1/0x13/5/95'', ChangeDel ''0000000095/1/0x13/5'']\<rparr>)"
    by (simp add: db_100_101_eq db_defs codec_defs replicate_numeral)
  have abs: "datumToKey (full ''1'' ''0x13'' ''5'' ''95'') \<notin> fst ` set (level db_100_101)"
    by (simp add: db_100_101_eq db_defs codec_defs)
  have ck: "datumToChangeKey (full ''1'' ''0x13'' ''5'' ''95'') = Inr ''0000000095/1/0x13/5''"
    by (simp add: db_defs codec_defs replicate_numeral)
  from del_absent_succeeds [OF run] run abs ck show ?thesis by simp
qed

text \<open>
  C7, as stated, fails: on a database without the primary entry, \<open>del\<close> succeeds and the
  deletion of the change marker is issued.
\<close>

theorem del_absent_counterexample:
  "datumToKey (full ''1'' ''0x13'' ''5'' ''95'') \<notin> fst ` set (level (empty_db :: string db)) \<and>
   del (empty_db :: string db) (full ''1'' ''0x13'' ''5'' ''95'') =
     (Inr (), \<lparr>level = [], changeIndex = [],
               writes = [LevelDel ''1/0x13/5/95'', ChangeDel ''0000000095/1/0x13/5'']\<rparr>)"
  by (simp add: db_defs codec_defs replicate_numeral)

subsection \<open>Rebuilding the change index\<close>

lemma createChangeIndex_loop_stores:
  "level (snd (createChangeIndex_loop d n es)) = level d \<and>
   changeIndex (snd (createChangeIndex_loop d n es)) =
     fold (\<lambda>ck s. store_put s ck []) (marks es) (changeIndex d)"
proof (induction es arbitrary: d n)
  case Nil
  show ?case by simp
next
  case (Cons e es)
  obtain key val where e: "e = (key, val)" by (cases e)
  show ?case
  proof (cases "datumToChangeKey (keyToDatum key)")
    case (Inl err)
    then show ?thesis by (simp add: e)
  next
    case (Inr ck)
    with Cons.IH [of "changeIndex_put d ck []" "n + 1"] show ?thesis
      by (simp add: e changeIndex_put_def)
  qed
qed

lemma fold_put_sorted:
  "sorted_store s \<Longrightarrow> sorted_store (fold (\<lambda>ck s. store_put s ck v) ks s)"
  by (induction ks arbitrary: s) (simp_all add: sorted_store_put)

lemma fold_put_keeps:
  "(k, v) \<in> set s \<Longrightarrow> (k, v) \<in> set (fold (\<lambda>ck s. store_put s ck v) ks s)"
  by (induction ks arbitrary: s) (simp_all add: store_put_keeps)

lemma fold_put_marks:
  "k \<in> set ks \<Longrightarrow> (k, v) \<in> set (fold (\<lambda>ck s. store_put s ck v) ks s)"
proof (induction ks arbitrary: s)
  case Nil
  then show ?case by simp
next
  case (Cons a ks)
  show ?case
  proof (cases "k = a")
    case True
    then show ?thesis by (simp add: fold_put_keeps store_put_mem)
  next
    case False
    with Cons show ?thesis by simp
  qed
qed

lemma fold_put_keys:
  "fst ` set s \<subseteq> fst ` set (fold (\<lambda>ck s. store_put s ck v) ks s)"
proof (induction ks arbitrary: s)
  case Nil
  show ?case by simp
next
  case (Cons a ks)
  have "fst ` set s \<subseteq> fst ` set (store_put s a v)"
    by (auto simp: set_store_put_keys)
  also have "\<dots> \<subseteq> fst ` set (fold (\<lambda>ck s. store_put s ck v) ks (store_put s a v))"
    by (rule Cons.IH)
  finally show ?case by simp
qed

lemma fold_put_again:
  "sorted_store s \<Longrightarrow> \<forall>k \<in> set ks. (k, v) \<in> set s \<Longrightarrow>
   fold (\<lambda>ck s. store_put s ck v) ks s = s"
  by (induction ks) (simp_all add: store_put_present)

text \<open>
  C9. Running \<open>createChangeIndex\<close> a second time leaves the change index as the first
  run left it, and a run removes no marker: every key present before is present after.
  The change index is a store: its entries are in ascending key order.
\<close>

theorem createChangeIndex_idempotent:
  assumes "sorted_store (changeIndex d)"
  shows "changeIndex (snd (createChangeIndex (snd (createChangeIndex d)))) =
           changeIndex (snd (createChangeIndex d)) \<and>
         fst ` set (changeIndex d) \<subseteq> fst ` set (changeIndex (snd (createChangeIndex d)))"
proof -
  let ?put = "\<lambda>ck s. store_put s ck []"
  let ?d1 = "snd (createChangeIndex d)"
  have lv: "level ?d1 = level d"
    and ci: "changeIndex ?d1 = fold ?put (marks (level d)) (changeIndex d)"
    by (simp_all add: createChangeIndex_def createChangeIndex_loop_stores)
  have ci2: "changeIndex (snd (createChangeIndex ?d1)) =
               fold ?put (marks (level d)) (changeIndex ?d1)"
    using lv by (simp add: createChangeIndex_def createChangeIndex_loop_stores)
  have srt: "sorted_store (changeIndex ?d1)"
    using assms by (simp add: ci fold_put_sorted)
  have "\<forall>k \<in> set (marks (level d)). (k, []) \<in> set (changeIndex ?d1)"
    by (simp add: ci fold_put_marks)
  with srt have "fold ?put (marks (level d)) (changeIndex ?d1) = changeIndex ?d1"
    by (rule fold_put_again)
  with ci2 have "changeIndex (snd (createChangeIndex ?d1)) = changeIndex ?d1"
    by simp
  moreover have "fst ` set (changeIndex d) \<subseteq> fst ` set (changeIndex ?d1)"
    unfolding ci by (rule fold_put_keys)
  ultimately show ?thesis by simp
qed

theorem createChangeIndex_idempotent_witness:
  "sorted_store (changeIndex db_100_101) \<and>
   changeIndex (snd (createChangeIndex (snd (createChangeIndex db_100_101)))) =
     changeIndex (snd (createChangeIndex db_100_101)) \<and>
   fst ` set (changeIndex db_100_101) \<subseteq>
     fst ` set (changeIndex (snd (createChangeIndex db_100_101)))"
proof -
  have s: "sorted_store (changeIndex db_100_101)"
    by (simp add: db_100_101_eq sorted_store_def)
  from createChangeIndex_idempotent [OF s] s show ?thesis by simp
qed

subsection \<open>The operations keep the stores sorted\<close>

lemma db_inv_empty: "db_inv empty_db"
  by (simp add: db_inv_def empty_db_def sorted_store_def)

lemma db_inv_insert_db: "db_inv d \<Longrightarrow> db_inv (snd (insert_db d q data))"
  by (auto simp: db_inv_def insert_db_def level_put_def changeIndex_put_def Let_def
                 sorted_store_put split: sum.splits)

lemma db_inv_del: "db_inv d \<Longrightarrow> db_inv (snd (del d q))"
  by (auto simp: db_inv_def del_def level_del_def changeIndex_del_def Let_def
                 sorted_store_del split: sum.splits)

lemma db_inv_createChangeIndex: "db_inv d \<Longrightarrow> db_inv (snd (createChangeIndex d))"
  by (simp add: db_inv_def createChangeIndex_def createChangeIndex_loop_stores fold_put_sorted)

subsection \<open>Scenarios of \<^verbatim>\<open>getOne\<close> and \<^verbatim>\<open>getMany\<close>\<close>

lemma last_entry_greatest:
  assumes "sorted_store s" and "last_entry s = Some (k, v)"
  shows "(k, v) \<in> set s \<and> (\<forall>e \<in> set s. fst e \<le> k)"
proof -
  from assms(2) obtain pre where s: "s = pre @ [(k, v)]"
    by (cases s rule: rev_cases) (auto simp: last_entry_def)
  with assms(1) have "\<forall>e \<in> set pre. fst e < k"
    by (auto simp: sorted_store_def sorted_wrt_append)
  with s show ?thesis by auto
qed

lemma last_entry_None: "last_entry s = None \<longleftrightarrow> s = []"
  by (cases s rule: rev_cases) (simp_all add: last_entry_def)

text \<open>
  What \<open>getOne\<close> with a block number computes: the entry with the greatest key, in the
  order of the store, among the keys between the prefix of the identity and the bound.
\<close>

lemma getOne_greatest_key:
  assumes "sorted_store (level d)"
    and "truthy (chainId q)" "truthy (address q)" "truthy (tokenId q)" "truthy (blockNumber q)"
  shows "(getOne d q = Inl LevelNotFound \<longleftrightarrow>
            (\<forall>e \<in> set (level d).
               \<not> (idPrefix q @ ''/'' \<le> fst e \<and>
                  fst e \<le> idPrefix q @ ''/'' @ tmpl (blockNumber q)))) \<and>
         (\<forall>r. getOne d q = Inr r \<longrightarrow>
            (\<exists>k. (k, snd r) \<in> set (level d) \<and> fst r = keyToDatum k \<and>
                 idPrefix q @ ''/'' \<le> k \<and> k \<le> idPrefix q @ ''/'' @ tmpl (blockNumber q) \<and>
                 (\<forall>e \<in> set (level d).
                    idPrefix q @ ''/'' \<le> fst e \<and>
                    fst e \<le> idPrefix q @ ''/'' @ tmpl (blockNumber q) \<longrightarrow> fst e \<le> k)))"
proof -
  let ?scan = "store_iterator (level d) (idPrefix q @ ''/'')
                 (idPrefix q @ ''/'' @ tmpl (blockNumber q))"
  have srt: "sorted_store ?scan"
    using assms(1) by (rule store_iterator_sorted)
  have get: "getOne d q =
     (case last_entry ?scan of Some (key, val) \<Rightarrow> Inr (keyToDatum key, val)
      | None \<Rightarrow> Inl LevelNotFound)"
    using assms(2-5) by (simp add: getOne_def)
  show ?thesis
  proof (cases "last_entry ?scan")
    case None
    then have "?scan = []" by (simp add: last_entry_None)
    then have "\<forall>e \<in> set (level d).
               \<not> (idPrefix q @ ''/'' \<le> fst e \<and>
                  fst e \<le> idPrefix q @ ''/'' @ tmpl (blockNumber q))"
      by (simp add: store_iterator_def filter_empty_conv)
    with None get show ?thesis by simp
  next
    case (Some e)
    obtain k v where e: "e = (k, v)" by (cases e)
    from last_entry_greatest [OF srt Some [unfolded e]]
    have mem: "(k, v) \<in> set ?scan" and top: "\<forall>e \<in> set ?scan. fst e \<le> k" by simp_all
    from mem have "\<exists>e \<in> set (level d). idPrefix q @ ''/'' \<le> fst e \<and>
                  fst e \<le> idPrefix q @ ''/'' @ tmpl (blockNumber q)"
      by (force simp: store_iterator_def)
    moreover from mem top have "(k, v) \<in> set (level d) \<and>
                 idPrefix q @ ''/'' \<le> k \<and> k \<le> idPrefix q @ ''/'' @ tmpl (blockNumber q) \<and>
                 (\<forall>e \<in> set (level d).
                    idPrefix q @ ''/'' \<le> fst e \<and>
                    fst e \<le> idPrefix q @ ''/'' @ tmpl (blockNumber q) \<longrightarrow> fst e \<le> k)"
      by (auto simp: store_iterator_def)
    ultimately show ?thesis
      using get Some e by auto
  qed
qed

text \<open>
  C1, on the code. The upper bound of the scan is compared with the stored keys as a
  string. With versions at blocks 100 and 101, the cutoffs 101 and 100 give these
  versions, and the cutoff 99 gives the version of block 101 (no \<open>LevelNotFound\<close>): the
  keys \<^verbatim>\<open>1/0x01/1/100\<close> and \<^verbatim>\<open>1/0x01/1/101\<close> are below \<^verbatim>\<open>1/0x01/1/99\<close>. With versions at
  blocks 9 and 10 and no cutoff, the result is the version of block 9.
\<close>

theorem getOne_cutoff_lexicographic:
  "getOne db_100_101 (full ''1'' ''0x01'' ''1'' ''101'') =
     Inr (full ''1'' ''0x01'' ''1'' ''101'', ''updated-data'') \<and>
   getOne db_100_101 (full ''1'' ''0x01'' ''1'' ''100'') =
     Inr (full ''1'' ''0x01'' ''1'' ''100'', ''data'') \<and>
   getOne db_100_101 (full ''1'' ''0x01'' ''1'' ''99'') =
     Inr (full ''1'' ''0x01'' ''1'' ''101'', ''updated-data'') \<and>
   getOne db_9_10 (token ''1'' ''0x01'' ''1'') =
     Inr (full ''1'' ''0x01'' ''1'' ''9'', ''data'')"
  by (simp add: db_100_101_eq db_9_10_eq db_defs codec_defs)

text \<open>
  C2, on the code. The block numbers are compared with the cutoff as strings, and the
  default cutoff is the string \<^verbatim>\<open>9007199254740991\<close>. A token whose only version is at
  block 95 is not yielded when no cutoff is given; of the versions at blocks 9 and 10 the
  one of block 9 is yielded; with the cutoff 99 the version of block 101 is yielded.
\<close>

theorem getMany_cutoff_lexicographic:
  "getMany db_95 (contract ''1'' ''0x13'' None) = Inr [] \<and>
   getMany db_9_10 (contract ''1'' ''0x01'' None) =
     Inr [(full ''1'' ''0x01'' ''1'' ''9'', ''data'')] \<and>
   getMany db_100_101 (contract ''1'' ''0x01'' (Some ''99'')) =
     Inr [(full ''1'' ''0x01'' ''1'' ''101'', ''updated-data'')]"
  by (simp add: db_95_eq db_9_10_eq db_100_101_eq db_defs codec_defs till_default)

text \<open>The scenario of the tests: the block numbers have the same number of digits.\<close>

lemma getMany_scenario:
  "getMany db_tokens (contract ''1'' ''0xb8'' None) =
     Inr [(full ''1'' ''0xb8'' ''1'' ''110'', ''A''), (full ''1'' ''0xb8'' ''2'' ''120'', ''B2''),
          (full ''1'' ''0xb8'' ''3'' ''130'', ''C'')] \<and>
   getMany db_tokens (contract ''1'' ''0xb8'' (Some ''110'')) =
     Inr [(full ''1'' ''0xb8'' ''1'' ''110'', ''A''), (full ''1'' ''0xb8'' ''2'' ''110'', ''B'')]"
  by (simp add: db_tokens_level db_defs codec_defs till_default Let_def)

text \<open>
  C10. \<open>getMany\<close> fails with \<open>NoItemsFound\<close> exactly when no stored key lies in the range
  of the query; when keys lie in the range and no group passes the cutoff, the result
  is the empty sequence and no error.
\<close>

theorem getMany_empty_range:
  "getMany d q = Inl NoItemsFound \<longleftrightarrow>
     (\<forall>e \<in> set (level d).
        \<not> (fst (getMany_filter q) \<le> fst e \<and> fst e \<le> snd (getMany_filter q)))"
proof -
  let ?scan = "store_iterator (level d) (fst (getMany_filter q)) (snd (getMany_filter q))"
  have range: "?scan = [] \<longleftrightarrow>
     (\<forall>e \<in> set (level d).
        \<not> (fst (getMany_filter q) \<le> fst e \<and> fst e \<le> snd (getMany_filter q)))"
    by (simp add: store_iterator_def filter_empty_conv)
  have "getMany d q = Inl NoItemsFound \<longleftrightarrow> ?scan = []"
    by (simp add: getMany_def Let_def split: list.splits)
  with range show ?thesis by simp
qed

theorem getMany_empty_range_witness:
  "store_iterator (level db_tokens) (fst (getMany_filter (contract ''2'' ''0xb8'' None)))
     (snd (getMany_filter (contract ''2'' ''0xb8'' None))) = [] \<and>
   getMany db_tokens (contract ''2'' ''0xb8'' None) = Inl NoItemsFound \<and>
   getMany db_tokens (contract ''1'' ''0xb8'' (Some ''100'')) = Inr []"
proof -
  have none: "\<forall>e \<in> set (level db_tokens).
      \<not> (fst (getMany_filter (contract ''2'' ''0xb8'' None)) \<le> fst e \<and>
         fst e \<le> snd (getMany_filter (contract ''2'' ''0xb8'' None)))"
    by (simp add: db_tokens_level db_defs codec_defs)
  have cut: "getMany db_tokens (contract ''1'' ''0xb8'' (Some ''100'')) = Inr []"
    by (simp add: db_tokens_level db_defs codec_defs Let_def)
  from none have "store_iterator (level db_tokens)
      (fst (getMany_filter (contract ''2'' ''0xb8'' None)))
      (snd (getMany_filter (contract ''2'' ''0xb8'' None))) = []"
    by (simp add: store_iterator_def filter_empty_conv)
  with none cut getMany_empty_range [of db_tokens "contract ''2'' ''0xb8'' None"]
  show ?thesis by simp
qed

subsection \<open>\<^verbatim>\<open>getIdsChanged\<close>\<close>

lemma changeKey_ids_identity:
  assumes "changeKey_ids m = Inr (nid, ident)"
  shows "idPrefix (keyToDatum ident) = nid"
proof -
  let ?segs = "split_on CHR ''/'' m"
  let ?c = "tmpl (nth_opt ?segs 1)" and ?a = "tmpl (nth_opt ?segs 2)"
    and ?t = "tmpl (nth_opt ?segs 3)"
  from assms obtain b n where b: "nth_opt ?segs 0 = Some b" and n: "decodeNumber b = Some n"
    and nid: "nid = ?c @ ''/'' @ ?a @ ''/'' @ ?t" and ident: "ident = nid @ ''/'' @ n"
    by (auto simp: changeKey_ids_def Let_def split: option.splits)
  from n have "list_all is_digit n"
    by (auto simp: decodeNumber_def js_toString_digits)
  then have sn: "CHR ''/'' \<notin> set n" by (rule digits_no_sep)
  have sc: "CHR ''/'' \<notin> set ?c" and sa: "CHR ''/'' \<notin> set ?a" and st: "CHR ''/'' \<notin> set ?t"
    by (rule tmpl_no_sep [OF refl])+
  have "split_on CHR ''/'' ident = [?c, ?a, ?t, n]"
    using sc sa st sn
    by (simp add: ident nid split_on_append split_on_no_sep_id)
  then show ?thesis
    by (simp add: keyToDatum_def nth_opt_def idPrefix_def tmpl_def nid)
qed

lemma map_of_map_set: "map_of (map_set m k v) = (map_of m)(k \<mapsto> v)"
  by (induction m) (auto simp: fun_upd_twist)

lemma keys_map_set: "fst ` set (map_set m k v) = insert k (fst ` set m)"
  by (simp add: dom_map_of_conv_image_fst [symmetric] map_of_map_set)

lemma distinct_map_set: "distinct (map fst m) \<Longrightarrow> distinct (map fst (map_set m k v))"
  by (induction m) (auto simp: keys_map_set)

text \<open>The pairs computed by the loop from the scanned keys.\<close>

lemma getIdsChanged_loop_fold:
  assumes "getIdsChanged_loop ids0 es = Inr ids"
  shows "\<exists>ps. map (changeKey_ids \<circ> fst) es = map Inr ps \<and>
              ids = fold (\<lambda>p m. map_set m (fst p) (snd p)) ps ids0"
  using assms
proof (induction es arbitrary: ids0)
  case Nil
  then show ?case by simp
next
  case (Cons e es)
  obtain key val where e: "e = (key, val)" by (cases e)
  from Cons.prems obtain nid ident where ck: "changeKey_ids key = Inr (nid, ident)"
    and rest: "getIdsChanged_loop (map_set ids0 nid ident) es = Inr ids"
    by (auto simp: e split: sum.splits)
  from Cons.IH [OF rest] obtain ps where
    ps: "map (changeKey_ids \<circ> fst) es = map Inr ps"
        "ids = fold (\<lambda>p m. map_set m (fst p) (snd p)) ps (map_set ids0 nid ident)"
    by blast
  then have "map (changeKey_ids \<circ> fst) (e # es) = map Inr ((nid, ident) # ps) \<and>
             ids = fold (\<lambda>p m. map_set m (fst p) (snd p)) ((nid, ident) # ps) ids0"
    by (simp add: e ck)
  then show ?case by blast
qed

lemma fold_map_set_distinct:
  "distinct (map fst m) \<Longrightarrow>
   distinct (map fst (fold (\<lambda>p m. map_set m (fst p) (snd p)) ps m))"
  by (induction ps arbitrary: m) (simp_all add: distinct_map_set)

lemma fold_map_set_map_of:
  "map_of (fold (\<lambda>p m. map_set m (fst p) (snd p)) ps m) = map_of m ++ map_of (rev ps)"
proof (induction ps arbitrary: m)
  case Nil
  show ?case by simp
next
  case (Cons p ps)
  obtain k v where p: "p = (k, v)" by (cases p)
  show ?case
    by (simp add: Cons.IH p map_of_map_set map_of_append map_add_assoc [symmetric]
                  map_add_upd_left [symmetric]) (simp add: map_add_def fun_eq_iff split: option.splits)
qed

lemma map_of_rev_last:
  "map_of (rev ps) k = Some v \<Longrightarrow>
   \<exists>pre post. ps = pre @ (k, v) # post \<and> k \<notin> fst ` set post"
proof (induction ps rule: rev_induct)
  case Nil
  then show ?case by simp
next
  case (snoc p ps)
  obtain k' v' where p: "p = (k', v')" by (cases p)
  show ?case
  proof (cases "k' = k")
    case True
    with snoc.prems have "v' = v" by (simp add: p)
    with True have "ps @ [p] = ps @ (k, v) # [] \<and> k \<notin> fst ` set []" by (simp add: p)
    then show ?thesis by blast
  next
    case False
    with snoc.prems have "map_of (rev ps) k = Some v" by (simp add: p)
    from snoc.IH [OF this] obtain pre post where
      "ps = pre @ (k, v) # post" "k \<notin> fst ` set post" by blast
    with False have "ps @ [p] = pre @ (k, v) # (post @ [p]) \<and> k \<notin> fst ` set (post @ [p])"
      by (auto simp: p)
    then show ?thesis by blast
  qed
qed

lemma map_eq_split:
  "map f xs = ys @ z # zs \<Longrightarrow>
   \<exists>pre m post. xs = pre @ m # post \<and> map f pre = ys \<and> f m = z \<and> map f post = zs"
  by (auto simp: map_eq_append_conv map_eq_Cons_conv)

text \<open>
  C3, as the code has it. \<open>getIdsChanged\<close> returns at most one key per identity, and
  one for every identity that has a marker in the scanned range. The key kept for an
  identity comes from the last marker of this identity in the scan: no later marker has
  the same identity, and the markers scanned before it have smaller change keys, that is
  earlier or equal padded block numbers. The change index is a store: its entries are in
  ascending key order.
\<close>

theorem getIdsChanged_keeps_last:
  assumes "getIdsChanged d from to = Inr ks" and "sorted_store (changeIndex d)"
  shows "distinct (map (idPrefix \<circ> keyToDatum) ks) \<and>
    (\<exists>gte lte. getIdsChanged_range from to = Inr (gte, lte) \<and>
       (\<forall>k \<in> set ks. \<exists>pre m post.
           map fst (store_iterator (changeIndex d) gte lte) = pre @ m # post \<and>
           changeKey_ids m = Inr (idPrefix (keyToDatum k), k) \<and>
           (\<forall>m' \<in> set post. \<forall>k'. changeKey_ids m' \<noteq> Inr (idPrefix (keyToDatum k), k')) \<and>
           (\<forall>m' \<in> set pre. m' < m)) \<and>
       (\<forall>m \<in> fst ` set (store_iterator (changeIndex d) gte lte).
           \<exists>k \<in> set ks. \<exists>k'. changeKey_ids m = Inr (idPrefix (keyToDatum k), k')))"
proof -
  from assms(1) obtain gte lte ids where
    range: "getIdsChanged_range from to = Inr (gte, lte)"
    and loop: "getIdsChanged_loop [] (store_iterator (changeIndex d) gte lte) = Inr ids"
    and ks: "ks = map snd ids"
    by (auto simp: getIdsChanged_def split: sum.splits)
  let ?scan = "store_iterator (changeIndex d) gte lte"
  let ?set = "\<lambda>p m. map_set m (fst p) (snd p)"
  from getIdsChanged_loop_fold [OF loop] obtain ps where
    ps: "map (changeKey_ids \<circ> fst) ?scan = map Inr ps" and ids: "ids = fold ?set ps []"
    by blast
  have dist: "distinct (map fst ids)"
    unfolding ids by (rule fold_map_set_distinct) simp
  have mo: "map_of ids = map_of (rev ps)"
    by (simp add: ids fold_map_set_map_of)
  have scanned: "changeKey_ids m = Inr p \<Longrightarrow> p \<in> set ps" if "m \<in> fst ` set ?scan" for m p
  proof -
    assume c: "changeKey_ids m = Inr p"
    from that have "changeKey_ids m \<in> set (map (changeKey_ids \<circ> fst) ?scan)" by auto
    with ps c show "p \<in> set ps" by auto
  qed
  have produced: "\<exists>m \<in> fst ` set ?scan. changeKey_ids m = Inr p" if "p \<in> set ps" for p
  proof -
    from that have "Inr p \<in> set (map (changeKey_ids \<circ> fst) ?scan)" by (simp add: ps)
    then show ?thesis by force
  qed
  have last: "map_of (rev ps) n = Some i" if "(n, i) \<in> set ids" for n i
    using that dist by (simp add: mo [symmetric])
  have ident: "idPrefix (keyToDatum i) = n" if "(n, i) \<in> set ids" for n i
  proof -
    from last [OF that] have "(n, i) \<in> set ps" by (auto dest: map_of_SomeD)
    from produced [OF this] show ?thesis by (auto dest: changeKey_ids_identity)
  qed
  have "map (idPrefix \<circ> keyToDatum) ks = map fst ids"
    unfolding ks by (auto simp: ident)
  with dist have c1: "distinct (map (idPrefix \<circ> keyToDatum) ks)" by simp
  have c2: "\<exists>pre m post.
           map fst ?scan = pre @ m # post \<and>
           changeKey_ids m = Inr (idPrefix (keyToDatum k), k) \<and>
           (\<forall>m' \<in> set post. \<forall>k'. changeKey_ids m' \<noteq> Inr (idPrefix (keyToDatum k), k')) \<and>
           (\<forall>m' \<in> set pre. m' < m)" if "k \<in> set ks" for k
  proof -
    from that ks obtain n where mem: "(n, k) \<in> set ids" by auto
    then have n: "idPrefix (keyToDatum k) = n" by (rule ident)
    from map_of_rev_last [OF last [OF mem]] obtain pre' post' where
      split: "ps = pre' @ (n, k) # post'" and fresh: "n \<notin> fst ` set post'" by blast
    from ps have "map changeKey_ids (map fst ?scan) = map Inr pre' @ Inr (n, k) # map Inr post'"
      by (simp add: split)
    from map_eq_split [OF this] obtain pre m post where
      sc: "map fst ?scan = pre @ m # post"
      and pre: "map changeKey_ids pre = map Inr pre'"
      and m: "changeKey_ids m = Inr (n, k)"
      and post: "map changeKey_ids post = map Inr post'"
      by blast
    have later: "changeKey_ids m' \<noteq> Inr (n, k')" if "m' \<in> set post" for m' k'
    proof
      assume "changeKey_ids m' = Inr (n, k')"
      with that have "Inr (n, k') \<in> set (map changeKey_ids post)" by force
      with post have "(n, k') \<in> set post'" by auto
      with fresh show False by force
    qed
    have "sorted_wrt (<) (map fst ?scan)"
      using store_iterator_sorted [OF assms(2)] by (simp add: sorted_store_def)
    with sc have earlier: "\<forall>m' \<in> set pre. m' < m"
      by (simp add: sorted_wrt_append)
    from sc m later earlier show ?thesis
      unfolding n by blast
  qed
  have c3: "\<exists>k \<in> set ks. \<exists>k'. changeKey_ids m = Inr (idPrefix (keyToDatum k), k')"
    if "m \<in> fst ` set ?scan" for m
  proof -
    from that have "changeKey_ids m \<in> set (map (changeKey_ids \<circ> fst) ?scan)" by auto
    with ps obtain n k' where c: "changeKey_ids m = Inr (n, k')" and p: "(n, k') \<in> set ps"
      by auto
    from p have "n \<in> fst ` set (rev ps)" by force
    then have "n \<in> dom (map_of ids)"
      by (simp add: mo dom_map_of_conv_image_fst)
    then obtain k where "(n, k) \<in> set ids"
      by (auto dest: map_of_SomeD)
    with ident [OF this] ks c show ?thesis by force
  qed
  from c1 c2 c3 range show ?thesis by blast
qed

lemma db_100_101_changes:
  "getIdsChanged_range ''100'' (Some ''120'') = Inr (''0000000100/'', ''0000000120/~'') \<and>
   map fst (store_iterator (changeIndex db_100_101) ''0000000100/'' ''0000000120/~'') =
     [''0000000100/1/0x01/1'', ''0000000101/1/0x01/1''] \<and>
   changeKey_ids ''0000000100/1/0x01/1'' = Inr (''1/0x01/1'', ''1/0x01/1/100'') \<and>
   changeKey_ids ''0000000101/1/0x01/1'' = Inr (''1/0x01/1'', ''1/0x01/1/101'')"
  by (simp add: db_100_101_eq getIdsChanged_range_def changeKey_ids_def store_iterator_def
                codec_defs number_defs replicate_numeral)

theorem getIdsChanged_keeps_last_witness:
  "getIdsChanged db_100_101 ''100'' (Some ''120'') = Inr [''1/0x01/1/101''] \<and>
   sorted_store (changeIndex db_100_101) \<and>
   distinct (map (idPrefix \<circ> keyToDatum) [''1/0x01/1/101'']) \<and>
   (\<exists>gte lte. getIdsChanged_range ''100'' (Some ''120'') = Inr (gte, lte) \<and>
      (\<forall>k \<in> set [''1/0x01/1/101'']. \<exists>pre m post.
          map fst (store_iterator (changeIndex db_100_101) gte lte) = pre @ m # post \<and>
          changeKey_ids m = Inr (idPrefix (keyToDatum k), k) \<and>
          (\<forall>m' \<in> set post. \<forall>k'. changeKey_ids m' \<noteq> Inr (idPrefix (keyToDatum k), k')) \<and>
          (\<forall>m' \<in> set pre. m' < m)))"
proof -
  have run: "getIdsChanged db_100_101 ''100'' (Some ''120'') = Inr [''1/0x01/1/101'']"
    using db_100_101_changes
    by (simp add: getIdsChanged_def db_100_101_eq store_iterator_def)
  have srt: "sorted_store (changeIndex db_100_101)"
    by (simp add: db_100_101_eq sorted_store_def)
  from getIdsChanged_keeps_last [OF run srt] run srt show ?thesis by blast
qed

text \<open>
  C3, as stated, fails: the identity has markers at blocks 100 and 101 in the window, and
  the key returned is the one of block 101, the last one scanned.
\<close>

theorem getIdsChanged_first_counterexample:
  "map fst (store_iterator (changeIndex db_100_101) ''0000000100/'' ''0000000120/~'') =
     [''0000000100/1/0x01/1'', ''0000000101/1/0x01/1''] \<and>
   getIdsChanged db_100_101 ''100'' (Some ''120'') = Inr [''1/0x01/1/101'']"
  using db_100_101_changes
  by (simp add: getIdsChanged_def db_100_101_eq store_iterator_def)

text \<open>
  C4, as the code has it. When both block numbers are digit strings of at most 10
  digits and \<open>to\<close> is numerically below \<open>from\<close>, \<open>getIdsChanged\<close> does not fail: the range
  of the scan is empty and the result is the empty list, whatever the change index holds.
\<close>

theorem getIdsChanged_reversed_range:
  assumes "list_all is_digit from" and "list_all is_digit to"
    and "length from \<le> 10" and "length to \<le> 10"
    and "nat_of_digits to < nat_of_digits from"
  shows "getIdsChanged d from (Some to) = Inr []"
proof -
  let ?f = "padStart MAX_LENGTH CHR ''0'' from" and ?t = "padStart MAX_LENGTH CHR ''0'' to"
  from assms have lf: "length from \<le> MAX_LENGTH" and lt: "length to \<le> MAX_LENGTH"
    by (simp_all add: MAX_LENGTH_def)
  have range: "getIdsChanged_range from (Some to) = Inr (?f @ ''/'', ?t @ ''/~'')"
    using lf lt by (simp add: getIdsChanged_range_def encodeNumber_def)
  have "nat_of_digits ?t < nat_of_digits ?f"
    using assms(5) padStart_digits(3) [OF assms(1) lf] padStart_digits(3) [OF assms(2) lt]
    by simp
  then have "?t < ?f"
    using padStart_digits(1,2) [OF assms(1) lf] padStart_digits(1,2) [OF assms(2) lt]
    by (intro digits_less_lex) simp_all
  then have below: "?t @ ''/~'' < ?f @ ''/''"
    using padStart_digits(1) [OF assms(1) lf] padStart_digits(1) [OF assms(2) lt]
    by (intro less_append_same_length) simp_all
  have "store_iterator (changeIndex d) (?f @ ''/'') (?t @ ''/~'') = []"
  proof -
    have "\<not> (?f @ ''/'' \<le> k \<and> k \<le> ?t @ ''/~'')" for k
      using below by auto
    then show ?thesis
      by (simp add: store_iterator_def)
  qed
  with range show ?thesis
    by (simp add: getIdsChanged_def)
qed

theorem getIdsChanged_reversed_range_witness:
  "list_all is_digit ''130'' \<and> list_all is_digit ''110'' \<and>
   length ''130'' \<le> 10 \<and> length ''110'' \<le> 10 \<and>
   nat_of_digits ''110'' < nat_of_digits ''130'' \<and>
   getIdsChanged db_tokens ''130'' (Some ''110'') = Inr []"
proof -
  have h: "list_all is_digit ''130''" "list_all is_digit ''110''"
    "length ''130'' \<le> 10" "length ''110'' \<le> 10"
    "nat_of_digits ''110'' < nat_of_digits ''130''"
    by (simp_all add: is_digit_def nat_of_digits_def digit_val_def)
  from getIdsChanged_reversed_range [OF h, of db_tokens] h show ?thesis by simp
qed

text \<open>
  C4, as stated, fails: with \<open>from\<close> 120 and \<open>to\<close> 100 the call returns the empty list,
  and no error.
\<close>

theorem getIdsChanged_reversed_range_counterexample:
  "nat_of_digits ''100'' < nat_of_digits ''120'' \<and>
   getIdsChanged db_100_101 ''120'' (Some ''100'') = Inr []"
  by (simp add: getIdsChanged_def getIdsChanged_range_def db_100_101_eq store_iterator_def
                codec_defs replicate_numeral nat_of_digits_def digit_val_def)

end
